theory Spec2Isabelle
  imports Complex_Main
begin

section \<open>Numbers and raw values of the host language\<close>

text \<open>
  The simulator of \<^verbatim>\<open>src/script.js\<close> computes with the numbers of its host language:
  finite values, the two infinities and the not-a-number value. Finite values are kept
  exactly, as rationals: this agrees with the source on every run whose intermediate values
  are exactly representable (integers and halves of moderate size, which is what integer
  task parameters and the speeds 1 and 0.5 produce). The sign of zero is not distinguished.
\<close>

datatype jsnum = Fin rat | PInf | NInf | NaN

fun js_neg :: "jsnum \<Rightarrow> jsnum" where
  "js_neg (Fin a) = Fin (- a)"
| "js_neg PInf = NInf"
| "js_neg NInf = PInf"
| "js_neg NaN = NaN"

fun js_add :: "jsnum \<Rightarrow> jsnum \<Rightarrow> jsnum" where
  "js_add (Fin a) (Fin b) = Fin (a + b)"
| "js_add NaN _ = NaN"
| "js_add _ NaN = NaN"
| "js_add PInf NInf = NaN"
| "js_add NInf PInf = NaN"
| "js_add PInf _ = PInf"
| "js_add _ PInf = PInf"
| "js_add NInf _ = NInf"
| "js_add _ NInf = NInf"

definition js_sub :: "jsnum \<Rightarrow> jsnum \<Rightarrow> jsnum" where
  "js_sub a b = js_add a (js_neg b)"

text \<open>The comparison \<^verbatim>\<open>a < b\<close>: false as soon as one side is not a number.\<close>

fun js_lt :: "jsnum \<Rightarrow> jsnum \<Rightarrow> bool" where
  "js_lt (Fin a) (Fin b) = (a < b)"
| "js_lt NaN _ = False"
| "js_lt _ NaN = False"
| "js_lt _ NInf = False"
| "js_lt PInf _ = False"
| "js_lt NInf _ = True"
| "js_lt _ PInf = True"

definition js_gt :: "jsnum \<Rightarrow> jsnum \<Rightarrow> bool" where
  "js_gt a b = js_lt b a"

definition js_le :: "jsnum \<Rightarrow> jsnum \<Rightarrow> bool" where
  "js_le a b = (js_lt a b \<or> (a = b \<and> a \<noteq> NaN))"

text \<open>Truthiness of a number: zero and not-a-number are falsy.\<close>

definition js_truthy :: "jsnum \<Rightarrow> bool" where
  "js_truthy a = (a \<noteq> Fin 0 \<and> a \<noteq> NaN)"

text \<open>The operator \<^verbatim>\<open>a || b\<close> on numbers.\<close>

definition or_else :: "jsnum \<Rightarrow> jsnum \<Rightarrow> jsnum" where
  "or_else a b = (if js_truthy a then a else b)"

text \<open>
  Division of two counts, as the metrics use it (\<^verbatim>\<open>x.length / tasks.length\<close>): the
  divisor is a non-negative count, and a zero divisor gives not-a-number or an infinity,
  never an exception.
\<close>

fun js_div :: "jsnum \<Rightarrow> jsnum \<Rightarrow> jsnum" where
  "js_div (Fin a) (Fin b) =
     (if b = 0 then (if a = 0 then NaN else if 0 < a then PInf else NInf) else Fin (a / b))"
| "js_div NaN _ = NaN"
| "js_div _ NaN = NaN"
| "js_div (Fin a) _ = Fin 0"
| "js_div PInf (Fin b) = (if b < 0 then NInf else PInf)"
| "js_div NInf (Fin b) = (if b < 0 then PInf else NInf)"
| "js_div _ _ = NaN"

definition num :: "nat \<Rightarrow> jsnum" where
  "num n = Fin (of_nat n)"

definition inum :: "int \<Rightarrow> jsnum" where
  "inum n = Fin (of_int n)"

text \<open>
  A field of a raw task descriptor, as parsed from JSON: absent, \<^verbatim>\<open>null\<close>, a boolean, a
  number, or a plain object. (Strings and arrays in a numeric field convert through the
  host's string-to-number grammar and are not part of this input type.)
\<close>

datatype jsval = Undefined | Null | Bool bool | Num jsnum | Obj

fun val_truthy :: "jsval \<Rightarrow> bool" where
  "val_truthy Undefined = False"
| "val_truthy Null = False"
| "val_truthy (Bool b) = b"
| "val_truthy (Num n) = js_truthy n"
| "val_truthy Obj = True"

text \<open>\<^verbatim>\<open>Number(v)\<close>.\<close>

fun to_number :: "jsval \<Rightarrow> jsnum" where
  "to_number Undefined = NaN"
| "to_number Null = Fin 0"
| "to_number (Bool b) = (if b then Fin 1 else Fin 0)"
| "to_number (Num n) = n"
| "to_number Obj = NaN"

text \<open>\<^verbatim>\<open>a || b\<close> on raw values.\<close>

definition val_or :: "jsval \<Rightarrow> jsval \<Rightarrow> jsval" where
  "val_or a b = (if val_truthy a then a else b)"

text \<open>A resource name or null; the empty string is falsy.\<close>

fun str_truthy :: "string option \<Rightarrow> bool" where
  "str_truthy None = False"
| "str_truthy (Some s) = (s \<noteq> [])"

section \<open>Tasks\<close>

text \<open>
  A raw descriptor carries the fields that the normalization reads. The identifier and
  the resource names are strings. (Other properties of a descriptor, which
  \<^verbatim>\<open>Object.assign\<close> would copy into the task, are not part of this input type.)
\<close>

record raw_task =
  r_id :: string
  r_arrival :: jsval
  r_execution :: jsval
  r_exec :: jsval
  r_deadline :: jsval
  r_deadline_relative :: jsval
  r_period :: jsval
  r_is_critical :: jsval
  r_holds_resource :: "string option"
  r_needs_resource :: "string option"

text \<open>A history segment \<^verbatim>\<open>{start, end, state: 'run'}\<close>; every segment has state run.\<close>

record segment =
  seg_start :: nat
  seg_end :: nat

record task =
  tid :: string
  arrival :: jsnum
  exec :: jsnum
  remaining :: jsnum
  deadline_relative :: jsnum
  abs_deadline :: jsnum
  period :: jsnum
  is_critical :: bool
  history :: "segment list"
  started :: bool
  start_time :: "nat option"
  completed :: bool
  completion_time :: "nat option"
  wait_time :: nat
  holds_resource :: "string option"
  needs_resource :: "string option"
  admitted :: bool
  boosted :: bool
  effectiveCritical :: bool

text \<open>The body of \<^verbatim>\<open>tasks.map(t => ...)\<close> at the head of \<^verbatim>\<open>runSimulation\<close>.\<close>

definition normalize_task :: "raw_task \<Rightarrow> task" where
  "normalize_task t =
    (let arr = to_number (val_or (r_arrival t) (Num (Fin 0)));
         ex = to_number (val_or (r_execution t) (val_or (r_exec t) (Num (Fin 0))));
         dr = to_number (val_or (r_deadline t) (val_or (r_deadline_relative t) (Num ex)))
     in \<lparr> tid = r_id t,
          arrival = arr,
          exec = ex,
          remaining = ex,
          deadline_relative = dr,
          abs_deadline = js_add arr dr,
          period = (if r_period t = Null \<or> r_period t = Undefined then PInf
                    else to_number (r_period t)),
          is_critical = val_truthy (r_is_critical t),
          history = [],
          started = False,
          start_time = None,
          completed = False,
          completion_time = None,
          wait_time = 0,
          holds_resource = (if str_truthy (r_holds_resource t) then r_holds_resource t else None),
          needs_resource = (if str_truthy (r_needs_resource t) then r_needs_resource t else None),
          admitted = False,
          boosted = False,
          effectiveCritical = False \<rparr>)"

definition normalize :: "raw_task list \<Rightarrow> task list" where
  "normalize raws = map normalize_task raws"


section \<open>Ordering of candidates\<close>

text \<open>
  Modelled from the spec: the host's \<^verbatim>\<open>String.prototype.localeCompare\<close> is not part of
  the repository; the spec words the tie-break as "lexicographically smaller id", so the
  comparison is the lexicographic one on character codes, with results -1, 0 and 1.
\<close>

fun localeCompare :: "string \<Rightarrow> string \<Rightarrow> int" where
  "localeCompare [] [] = 0"
| "localeCompare [] (b # bs) = - 1"
| "localeCompare (a # as) [] = 1"
| "localeCompare (a # as) (b # bs) =
     (if (of_char a :: nat) < of_char b then - 1
      else if (of_char b :: nat) < of_char a then 1
      else localeCompare as bs)"

text \<open>
  The two comparators handed to \<^verbatim>\<open>sort\<close>:
  \<^verbatim>\<open>a.period - b.period || a.arrival - b.arrival || a.id.localeCompare(b.id)\<close> and the same
  with \<^verbatim>\<open>abs_deadline\<close> in place of \<^verbatim>\<open>period\<close>.
\<close>

definition cmp_rms :: "task \<Rightarrow> task \<Rightarrow> jsnum" where
  "cmp_rms a b =
     or_else (js_sub (period a) (period b))
       (or_else (js_sub (arrival a) (arrival b)) (inum (localeCompare (tid a) (tid b))))"

definition cmp_edf :: "task \<Rightarrow> task \<Rightarrow> jsnum" where
  "cmp_edf a b =
     or_else (js_sub (abs_deadline a) (abs_deadline b))
       (or_else (js_sub (arrival a) (arrival b)) (inum (localeCompare (tid a) (tid b))))"

text \<open>
  \<^verbatim>\<open>Array.prototype.sort\<close> with a comparator is stable; it is modelled by stable
  insertion: an element moves behind another only when the comparator is positive.
\<close>

fun insort_js :: "('a \<Rightarrow> 'a \<Rightarrow> jsnum) \<Rightarrow> 'a \<Rightarrow> 'a list \<Rightarrow> 'a list" where
  "insort_js cmp x [] = [x]"
| "insort_js cmp x (y # ys) =
     (if js_gt (cmp x y) (Fin 0) then y # insort_js cmp x ys else x # y # ys)"

definition sort_js :: "('a \<Rightarrow> 'a \<Rightarrow> jsnum) \<Rightarrow> 'a list \<Rightarrow> 'a list" where
  "sort_js cmp xs = foldr (insort_js cmp) xs []"

text \<open>\<^verbatim>\<open>xs[0]\<close>, which is undefined on an empty array.\<close>

fun first :: "'a list \<Rightarrow> 'a option" where
  "first [] = None"
| "first (x # xs) = Some x"

section \<open>Simulation state\<close>

datatype cpu = HIGH | LOW

fun cpu_name :: "cpu \<Rightarrow> string" where
  "cpu_name HIGH = ''HIGH_PERFORMANCE''"
| "cpu_name LOW = ''POWER_SAVER''"

fun speed :: "cpu \<Rightarrow> rat" where
  "speed HIGH = 1"
| "speed LOW = 1 / 2"

fun power :: "cpu \<Rightarrow> nat" where
  "power HIGH = 10"
| "power LOW = 3"

text \<open>
  The log lines of the source are formatted strings; the model keeps what each line is
  built from: the tick, the task identifiers and the resource name.
\<close>

datatype event =
    EvAdmitted nat string
  | EvBoosted nat string string
  | EvBlocked nat string string
  | EvAcquired nat string string
  | EvRunning nat string cpu jsnum
  | EvCompleted nat string jsnum
  | EvReleased nat string string
  | EvIdle nat

record snapshot =
  snap_time :: nat
  snap_running :: "string option"
  snap_cpu :: string

text \<open>
  The task objects are shared between \<^verbatim>\<open>tasks\<close>, \<^verbatim>\<open>ready\<close> and \<^verbatim>\<open>running\<close>: the
  task list is the store, and \<^verbatim>\<open>ready\<close> and \<^verbatim>\<open>running\<close> hold positions in it. The
  resource table maps a resource name to the identifier of its owner. (Names that every
  object of the host inherits, such as \<^verbatim>\<open>constructor\<close>, are not resource names here.)
\<close>

record sim =
  tasks :: "task list"
  ready :: "nat list"
  running :: "nat option"
  cpuState :: cpu
  totalEnergy :: nat
  cpuBusyTime :: nat
  resources :: "string \<Rightarrow> string option"
  timeline :: "snapshot list"
  log_ev :: "event list"

record params =
  scheduler :: string
  totalTime :: int
  laxityThreshold :: int

definition upd_task :: "nat \<Rightarrow> (task \<Rightarrow> task) \<Rightarrow> sim \<Rightarrow> sim" where
  "upd_task i f s = s\<lparr>tasks := (tasks s)[i := f (tasks s ! i)]\<rparr>"

definition logPush :: "event \<Rightarrow> sim \<Rightarrow> sim" where
  "logPush e s = s\<lparr>log_ev := log_ev s @ [e]\<rparr>"

definition init_state :: "raw_task list \<Rightarrow> sim" where
  "init_state raws =
     \<lparr> tasks = normalize raws, ready = [], running = None, cpuState = HIGH,
       totalEnergy = 0, cpuBusyTime = 0, resources = (\<lambda>r. None), timeline = [],
       log_ev = [] \<rparr>"

section \<open>The phases of one tick\<close>

subsection \<open>Admission\<close>

text \<open>
  \<^verbatim>\<open>admitArrivals\<close> (lines 120-128): in the order of \<^verbatim>\<open>tasks\<close>, a task that is not yet
  admitted and whose arrival is not after the current tick is flagged, pushed to
  \<^verbatim>\<open>ready\<close> and logged. \<open>admit_one\<close> is the body of its loop.
\<close>

definition admit_one :: "nat \<Rightarrow> nat \<Rightarrow> sim \<Rightarrow> sim" where
  "admit_one t i s =
     (if \<not> admitted (tasks s ! i) \<and> js_le (arrival (tasks s ! i)) (num t)
      then logPush (EvAdmitted t (tid (tasks s ! i)))
             ((upd_task i (\<lambda>x. x\<lparr>admitted := True\<rparr>) s)\<lparr>ready := ready s @ [i]\<rparr>)
      else s)"

definition admitArrivals :: "nat \<Rightarrow> sim \<Rightarrow> sim" where
  "admitArrivals t s = fold (admit_one t) [0..<length (tasks s)] s"

text \<open>
  \<^verbatim>\<open>computeLaxity\<close> (lines 131-133): \<^verbatim>\<open>task.abs_deadline - (currentTime + task.remaining)\<close>.
\<close>

definition computeLaxity :: "nat \<Rightarrow> task \<Rightarrow> jsnum" where
  "computeLaxity t x = js_sub (abs_deadline x) (js_add (num t) (remaining x))"

subsection \<open>Priority inheritance\<close>

text \<open>\<^verbatim>\<open>tasks.find(x => x.id === ownerId)\<close>, as the position of the first match.\<close>

fun find_task :: "string \<Rightarrow> task list \<Rightarrow> nat option" where
  "find_task oid [] = None"
| "find_task oid (x # xs) =
     (if tid x = oid then Some 0 else map_option Suc (find_task oid xs))"

text \<open>
  The priority of the comparison, \<^verbatim>\<open>(t.is_critical ? 1000000 : 0) - t.abs_deadline\<close>
  (lines 182-183), the same expression for waiter and owner.
\<close>

definition prio :: "task \<Rightarrow> jsnum" where
  "prio x = js_sub (if is_critical x then Fin 1000000 else Fin 0) (abs_deadline x)"

text \<open>
  \<^verbatim>\<open>applyPriorityInheritance\<close> (lines 169-190) deletes every \<^verbatim>\<open>_boosted\<close> mark and then
  visits each task of \<^verbatim>\<open>ready\<close> as a waiter; \<open>pi_one\<close> is the body of that loop. A waiter
  without a needed resource, a resource without a (truthy) owner identifier and an
  identifier that no task has are skipped.
\<close>

definition pi_one :: "nat \<Rightarrow> nat \<Rightarrow> sim \<Rightarrow> sim" where
  "pi_one t w s =
     (case needs_resource (tasks s ! w) of
        None \<Rightarrow> s
      | Some r \<Rightarrow>
          if r = [] then s
          else (case resources s r of
                  None \<Rightarrow> s
                | Some ownerId \<Rightarrow>
                    if ownerId = [] then s
                    else (case find_task ownerId (tasks s) of
                            None \<Rightarrow> s
                          | Some ow \<Rightarrow>
                              if js_gt (prio (tasks s ! w)) (prio (tasks s ! ow))
                              then logPush (EvBoosted t (tid (tasks s ! ow)) (tid (tasks s ! w)))
                                     (upd_task ow (\<lambda>x. x\<lparr>boosted := True\<rparr>) s)
                              else s)))"

definition applyPriorityInheritance :: "nat \<Rightarrow> sim \<Rightarrow> sim" where
  "applyPriorityInheritance t s =
     fold (pi_one t) (ready s) (s\<lparr>tasks := map (\<lambda>x. x\<lparr>boosted := False\<rparr>) (tasks s)\<rparr>)"

subsection \<open>Selection\<close>

text \<open>
  \<^verbatim>\<open>chooseNextWithBoost\<close> (lines 193-221). The candidates are
  \<^verbatim>\<open>ready.filter(t => t.remaining > 0 && !t.completed)\<close>; each candidate gets
  \<^verbatim>\<open>_effectiveCritical = _boosted || is_critical\<close>; the choice is the first element of
  the candidates (or of the effectively critical ones) after sorting. The function
  returns the state, since it writes the marks, and the position of the chosen task.
\<close>

definition candidates :: "sim \<Rightarrow> nat list" where
  "candidates s =
     filter (\<lambda>i. js_gt (remaining (tasks s ! i)) (Fin 0) \<and> \<not> completed (tasks s ! i)) (ready s)"

definition mark_effective :: "nat list \<Rightarrow> sim \<Rightarrow> sim" where
  "mark_effective cands s =
     fold (\<lambda>i. upd_task i (\<lambda>x. x\<lparr>effectiveCritical := (boosted x \<or> is_critical x)\<rparr>)) cands s"

definition pick :: "(task \<Rightarrow> task \<Rightarrow> jsnum) \<Rightarrow> task list \<Rightarrow> nat list \<Rightarrow> nat option" where
  "pick cmp ts cands = first (sort_js (\<lambda>a b. cmp (ts ! a) (ts ! b)) cands)"

definition chooseNextWithBoost :: "string \<Rightarrow> sim \<Rightarrow> sim \<times> nat option" where
  "chooseNextWithBoost sched s =
     (let cands = candidates s in
      if cands = [] then (s, None)
      else
        (let s' = mark_effective cands s; ts = tasks s' in
         if sched = ''rms'' then (s', pick cmp_rms ts cands)
         else if sched = ''edf'' then (s', pick cmp_edf ts cands)
         else if sched = ''hybrid'' \<or> sched = ''energy-hybrid'' then
           (let criticalReady = filter (\<lambda>i. effectiveCritical (ts ! i)) cands in
            if criticalReady \<noteq> [] then (s', pick cmp_rms ts criticalReady)
            else (s', pick cmp_edf ts cands))
         else (s', pick cmp_edf ts cands)))"

subsection \<open>Frequency scaling\<close>

text \<open>
  The choice of the processor state (lines 241-252).
\<close>

definition dvfs :: "params \<Rightarrow> nat \<Rightarrow> sim \<Rightarrow> nat option \<Rightarrow> cpu" where
  "dvfs prm t s nxt =
     (if scheduler prm = ''energy-hybrid'' then
        (case nxt of
           None \<Rightarrow> LOW
         | Some i \<Rightarrow>
             if js_gt (computeLaxity t (tasks s ! i)) (inum (laxityThreshold prm)) then LOW
             else HIGH)
      else HIGH)"

subsection \<open>Execution\<close>

text \<open>
  Execution of the running task (lines 281-313): the start is recorded, the trailing
  history segment is extended (every segment has state \<^verbatim>\<open>run\<close>, so a second segment
  is never opened), the remaining work is decremented by the speed, the busy counter is
  incremented and the step logged; at \<^verbatim>\<open>remaining <= 0.0001\<close> the task is completed at
  \<^verbatim>\<open>currentTime + 1\<close> and the table entries of the resource it holds and of the one it
  needs are deleted when they carry its identifier.
\<close>

definition release_held :: "nat \<Rightarrow> nat \<Rightarrow> sim \<Rightarrow> sim" where
  "release_held t i s =
     (case holds_resource (tasks s ! i) of
        None \<Rightarrow> s
      | Some h \<Rightarrow>
          if h \<noteq> [] \<and> resources s h = Some (tid (tasks s ! i))
          then logPush (EvReleased (t + 1) (tid (tasks s ! i)) h)
                 (s\<lparr>resources := (resources s)(h := None)\<rparr>)
          else s)"

definition release_needed :: "nat \<Rightarrow> sim \<Rightarrow> sim" where
  "release_needed i s =
     (case needs_resource (tasks s ! i) of
        None \<Rightarrow> s
      | Some n \<Rightarrow>
          if n \<noteq> [] \<and> resources s n = Some (tid (tasks s ! i))
          then s\<lparr>resources := (resources s)(n := None)\<rparr>
          else s)"

definition complete_task :: "nat \<Rightarrow> nat \<Rightarrow> sim \<Rightarrow> sim" where
  "complete_task t i s =
     release_needed i
       (release_held t i
          (logPush (EvCompleted (t + 1) (tid (tasks s ! i)) (abs_deadline (tasks s ! i)))
             (upd_task i (\<lambda>x. x\<lparr>completed := True, completion_time := Some (t + 1)\<rparr>) s)))"

definition extend_history :: "nat \<Rightarrow> segment list \<Rightarrow> segment list" where
  "extend_history t h =
     (if h = [] then [\<lparr>seg_start = t, seg_end = t + 1\<rparr>]
      else butlast h @ [(last h)\<lparr>seg_end := t + 1\<rparr>])"

definition run_task :: "nat \<Rightarrow> nat \<Rightarrow> sim \<Rightarrow> sim" where
  "run_task t i s =
     (let s1 = upd_task i (\<lambda>x. if \<not> started x then x\<lparr>started := True, start_time := Some t\<rparr>
                               else x) s;
          s2 = upd_task i (\<lambda>x. x\<lparr>history := extend_history t (history x)\<rparr>) s1;
          s3 = upd_task i (\<lambda>x. x\<lparr>remaining := js_sub (remaining x) (Fin (speed (cpuState s)))\<rparr>) s2;
          s4 = s3\<lparr>cpuBusyTime := cpuBusyTime s3 + 1\<rparr>;
          s5 = logPush (EvRunning t (tid (tasks s4 ! i)) (cpuState s) (remaining (tasks s4 ! i))) s4
      in if js_le (remaining (tasks s5 ! i)) (Fin (1 / 10000)) then complete_task t i s5 else s5)"

text \<open>
  The branch \<^verbatim>\<open>if (next) { ... }\<close> of the loop body: the selected task becomes
  \<^verbatim>\<open>running\<close>, is blocked or acquires what it needs, records what it holds, and runs.
\<close>

definition acquire :: "nat \<Rightarrow> nat \<Rightarrow> sim \<Rightarrow> sim" where
  "acquire t i s =
     (case needs_resource (tasks s ! i) of
        None \<Rightarrow> s
      | Some r \<Rightarrow>
          if r = [] then s
          else if str_truthy (resources s r) \<and> resources s r \<noteq> Some (tid (tasks s ! i))
          then (logPush (EvBlocked t (tid (tasks s ! i)) r)
                  (upd_task i (\<lambda>x. x\<lparr>wait_time := wait_time x + 1\<rparr>) s))\<lparr>running := None\<rparr>
          else logPush (EvAcquired t (tid (tasks s ! i)) r)
                 (s\<lparr>resources := (resources s)(r \<mapsto> tid (tasks s ! i))\<rparr>))"

definition record_held :: "nat \<Rightarrow> sim \<Rightarrow> sim" where
  "record_held i s =
     (case holds_resource (tasks s ! i) of
        None \<Rightarrow> s
      | Some h \<Rightarrow>
          if running s \<noteq> None \<and> h \<noteq> []
          then s\<lparr>resources := (resources s)(h \<mapsto> tid (tasks s ! i))\<rparr>
          else s)"

definition dispatch :: "nat \<Rightarrow> nat \<Rightarrow> sim \<Rightarrow> sim" where
  "dispatch t i s =
     (let s2 = record_held i (acquire t i (s\<lparr>running := Some i\<rparr>))
      in if running s2 \<noteq> None then run_task t i s2 else s2)"

subsection \<open>Waiting and termination\<close>

text \<open>
  The waiting loop (lines 321-323) and the test for early termination (lines 326-331).
\<close>

definition wait_one :: "nat \<Rightarrow> sim \<Rightarrow> sim" where
  "wait_one i s =
     (if \<not> completed (tasks s ! i) \<and> running s \<noteq> Some i
      then upd_task i (\<lambda>x. x\<lparr>wait_time := wait_time x + 1\<rparr>) s
      else s)"

definition update_waits :: "sim \<Rightarrow> sim" where
  "update_waits s = fold wait_one (ready s) s"

definition all_done :: "sim \<Rightarrow> bool" where
  "all_done s =
     (filter (\<lambda>x. \<not> completed x \<and> admitted x) (tasks s) = []
      \<and> filter (\<lambda>x. \<not> admitted x) (tasks s) = [])"

section \<open>One tick and the loop\<close>

text \<open>
  The state before selection: admission, the clearing of the transient flags, and the
  priority-inheritance pass.
\<close>

definition before_select :: "nat \<Rightarrow> sim \<Rightarrow> sim" where
  "before_select t s =
     applyPriorityInheritance t
       ((admitArrivals t s)\<lparr>tasks :=
          map (\<lambda>x. x\<lparr>boosted := False, effectiveCritical := False\<rparr>) (tasks (admitArrivals t s))\<rparr>)"

text \<open>
  The loop body from the choice of the processor state to the waiting loop (lines
  241-323). With no task selected the tick is logged as idle and \<^verbatim>\<open>running\<close> keeps the
  value of the tick before.
\<close>

definition after_select :: "params \<Rightarrow> nat \<Rightarrow> sim \<Rightarrow> nat option \<Rightarrow> sim" where
  "after_select prm t s nxt =
     (let cs = dvfs prm t s nxt;
          s5 = s\<lparr>cpuState := cs, totalEnergy := totalEnergy s + power cs\<rparr>
      in update_waits
           (case nxt of
              None \<Rightarrow> logPush (EvIdle t) s5
            | Some i \<Rightarrow> dispatch t i s5))"

text \<open>The loop body up to the test for early termination.\<close>

definition tick :: "params \<Rightarrow> nat \<Rightarrow> sim \<Rightarrow> sim" where
  "tick prm t s =
     (case chooseNextWithBoost (scheduler prm) (before_select t s) of
        (s4, nxt) \<Rightarrow> after_select prm t s4 nxt)"

definition push_snapshot :: "nat \<Rightarrow> sim \<Rightarrow> sim" where
  "push_snapshot t s =
     s\<lparr>timeline := timeline s @
         [\<lparr> snap_time = t,
            snap_running = (case running s of None \<Rightarrow> None | Some i \<Rightarrow> Some (tid (tasks s ! i))),
            snap_cpu = cpu_name (cpuState s) \<rparr>]\<rparr>"

text \<open>
  \<^verbatim>\<open>for (currentTime = 0; currentTime <= totalTime; currentTime++)\<close>, with the
  \<^verbatim>\<open>break\<close> that precedes the snapshot.
\<close>

function loop :: "params \<Rightarrow> nat \<Rightarrow> sim \<Rightarrow> sim" where
  "loop prm t s =
     (if int t \<le> totalTime prm then
        (let s' = tick prm t s in
         if all_done s' then s' else loop prm (Suc t) (push_snapshot t s'))
      else s)"
  by pat_completeness auto
termination
  by (relation "measure (\<lambda>(prm, t, s). nat (totalTime prm + 1 - int t))") auto

declare loop.simps [simp del]

section \<open>Metrics\<close>

record result =
  res_tasks :: "task list"
  res_log :: "event list"
  res_totalEnergy :: nat
  deadlineMissRatio :: jsnum
  deadlineMisses :: "task list"
  avgTurnaround :: jsnum
  cpuUtilization :: jsnum
  res_timeline :: "snapshot list"
  totalSimTime :: int
  res_cpuBusyTime :: nat

text \<open>
  The metrics (lines 342-359). \<^verbatim>\<open>t.completion_time\<close> is read as a number, with
  \<^verbatim>\<open>null\<close> counting as 0.
\<close>

definition ct_nat :: "task \<Rightarrow> nat" where
  "ct_nat x = (case completion_time x of None \<Rightarrow> 0 | Some c \<Rightarrow> c)"

definition missed :: "task \<Rightarrow> bool" where
  "missed x = (\<not> completed x \<or> js_gt (num (ct_nat x)) (abs_deadline x))"

definition turnaround :: "int \<Rightarrow> task \<Rightarrow> jsnum" where
  "turnaround T x =
     (if ct_nat x \<noteq> 0 then js_sub (num (ct_nat x)) (arrival x) else js_sub (inum T) (arrival x))"

definition metrics :: "params \<Rightarrow> sim \<Rightarrow> result" where
  "metrics prm s =
     (let ts = tasks s;
          tst = foldr max (map (\<lambda>x. int (ct_nat x)) ts) (totalTime prm);
          mis = filter missed ts
      in \<lparr> res_tasks = ts,
           res_log = log_ev s,
           res_totalEnergy = totalEnergy s,
           deadlineMissRatio = js_div (num (length mis)) (num (length ts)),
           deadlineMisses = mis,
           avgTurnaround =
             js_div (foldl (\<lambda>a x. js_add a (turnaround (totalTime prm) x)) (Fin 0) ts)
               (num (length ts)),
           cpuUtilization = js_div (num (cpuBusyTime s)) (inum (max tst 1)),
           res_timeline = timeline s,
           totalSimTime = tst,
           res_cpuBusyTime = cpuBusyTime s \<rparr>)"

definition runSimulation :: "raw_task list \<Rightarrow> string \<Rightarrow> int \<Rightarrow> int \<Rightarrow> result" where
  "runSimulation raws sched T L =
     (let prm = \<lparr> scheduler = sched, totalTime = T, laxityThreshold = L \<rparr>
      in metrics prm (loop prm 0 (init_state raws)))"


section \<open>The run handler\<close>

text \<open>
  The click handler of the run button is the only caller of \<^verbatim>\<open>runSimulation\<close>. It
  replaces an empty task list by the sample task set, and a horizon or threshold that
  \<^verbatim>\<open>parseInt\<close> could not read (or read as 0) by 200 and 20.
\<close>

definition raw_default :: raw_task where
  "raw_default =
     \<lparr> r_id = [], r_arrival = Undefined, r_execution = Undefined, r_exec = Undefined,
       r_deadline = Undefined, r_deadline_relative = Undefined, r_period = Undefined,
       r_is_critical = Undefined, r_holds_resource = None, r_needs_resource = None \<rparr>"

definition sample_task ::
  "string \<Rightarrow> int \<Rightarrow> int \<Rightarrow> int \<Rightarrow> jsval \<Rightarrow> bool \<Rightarrow> raw_task" where
  "sample_task i a e d p c =
     raw_default\<lparr> r_id := i, r_arrival := Num (inum a), r_execution := Num (inum e),
       r_deadline := Num (inum d), r_period := p, r_is_critical := Bool c \<rparr>"

definition SAMPLE_TASKS :: "raw_task list" where
  "SAMPLE_TASKS =
     [ sample_task ''T1'' 0 30 50 (Num (Fin 50)) True,
       sample_task ''T2'' 0 20 40 (Num (Fin 40)) True,
       sample_task ''T3'' 10 25 60 Null False,
       sample_task ''T4'' 20 15 50 Null False,
       (sample_task ''T5'' 5 12 40 Null True)\<lparr>r_holds_resource := Some ''R1''\<rparr>,
       (sample_task ''T6'' 6 6 25 Null True)\<lparr>r_needs_resource := Some ''R1''\<rparr> ]"

definition or_default :: "int option \<Rightarrow> int \<Rightarrow> int" where
  "or_default v d = (case v of None \<Rightarrow> d | Some n \<Rightarrow> if n = 0 then d else n)"

definition run_click :: "raw_task list \<Rightarrow> string \<Rightarrow> int option \<Rightarrow> int option \<Rightarrow> result" where
  "run_click currentTasks sched horizon threshold =
     runSimulation (if currentTasks = [] then SAMPLE_TASKS else currentTasks) sched
       (or_default horizon 200) (or_default threshold 20)"

section \<open>Auxiliary notions for the proofs\<close>

text \<open>The net effect of one executed tick on the task that runs.\<close>

definition ran :: "nat \<Rightarrow> cpu \<Rightarrow> task \<Rightarrow> task" where
  "ran t cs x =
     (let x3 = x\<lparr>started := True,
                  start_time := (if started x then start_time x else Some t),
                  history := extend_history t (history x),
                  remaining := js_sub (remaining x) (Fin (speed cs))\<rparr>
      in if js_le (remaining x3) (Fin (1 / 10000))
         then x3\<lparr>completed := True, completion_time := Some (t + 1)\<rparr> else x3)"

text \<open>Whether the selected task finds what it needs owned by another identifier.\<close>

definition blocked :: "sim \<Rightarrow> nat \<Rightarrow> bool" where
  "blocked s i =
     (case needs_resource (tasks s ! i) of
        None \<Rightarrow> False
      | Some r \<Rightarrow> r \<noteq> [] \<and> str_truthy (resources s r) \<and> resources s r \<noteq> Some (tid (tasks s ! i)))"

text \<open>
  The invariant of the loop: \<^verbatim>\<open>ready\<close> lists each admitted task once, by a valid
  position, and a completed task has been admitted.
\<close>

definition wf_state :: "sim \<Rightarrow> bool" where
  "wf_state s =
     (distinct (ready s)
      \<and> list_all (\<lambda>i. i < length (tasks s) \<and> admitted (tasks s ! i)) (ready s)
      \<and> list_all (\<lambda>x. completed x \<longrightarrow> admitted x) (tasks s))"

text \<open>
  The ordering "smaller key wins; ties broken by smaller arrival, then by the
  lexicographically smaller identifier", stated directly: \<open>key_le k a b\<close> says that \<open>a\<close> is
  not behind \<open>b\<close>. The rate-monotonic ordering takes the period as key, the
  earliest-deadline ordering the absolute deadline.
\<close>

definition key_le :: "(task \<Rightarrow> jsnum) \<Rightarrow> task \<Rightarrow> task \<Rightarrow> bool" where
  "key_le k a b =
     (js_lt (k a) (k b)
      \<or> (k a = k b
          \<and> (js_lt (arrival a) (arrival b)
              \<or> (arrival a = arrival b \<and> localeCompare (tid a) (tid b) \<le> 0))))"

definition rms_le :: "task \<Rightarrow> task \<Rightarrow> bool" where
  "rms_le = key_le period"

definition edf_le :: "task \<Rightarrow> task \<Rightarrow> bool" where
  "edf_le = key_le abs_deadline"

text \<open>The common shape of the two comparators of the source.\<close>

definition cmp_key :: "(task \<Rightarrow> jsnum) \<Rightarrow> task \<Rightarrow> task \<Rightarrow> jsnum" where
  "cmp_key k a b =
     or_else (js_sub (k a) (k b))
       (or_else (js_sub (arrival a) (arrival b)) (inum (localeCompare (tid a) (tid b))))"

text \<open>The part of a task that only execution changes.\<close>

definition progress :: "task \<Rightarrow> jsnum \<times> bool \<times> nat option \<times> segment list \<times> bool \<times> nat option" where
  "progress x = (remaining x, completed x, completion_time x, history x, started x, start_time x)"

text \<open>
  The state at the start of tick \<open>n\<close> of a run that has not left the loop before: every
  earlier tick was executed and its snapshot pushed.
\<close>

fun state_at :: "params \<Rightarrow> sim \<Rightarrow> nat \<Rightarrow> sim" where
  "state_at prm s0 0 = s0"
| "state_at prm s0 (Suc n) = push_snapshot n (tick prm n (state_at prm s0 n))"






section \<open>What each phase leaves unchanged\<close>


lemma map_upd_same:
  assumes "g (f (xs ! i)) = g (xs ! i)"
  shows "map g (xs[i := f (xs ! i)]) = map g xs"
proof (cases "i < length xs")
  case True
  then show ?thesis using assms by (simp add: map_update list_update_same_conv)
next
  case False
  then have "length xs \<le> i" by simp
  then show ?thesis by (simp add: list_update_beyond)
qed

lemma upd_task_map:
  "g (f (tasks s ! i)) = g (tasks s ! i) \<Longrightarrow> map g (tasks (upd_task i f s)) = map g (tasks s)"
  by (simp add: upd_task_def map_upd_same)

lemma upd_task_fields [simp]:
  "ready (upd_task i f s) = ready s"
  "running (upd_task i f s) = running s"
  "cpuState (upd_task i f s) = cpuState s"
  "totalEnergy (upd_task i f s) = totalEnergy s"
  "cpuBusyTime (upd_task i f s) = cpuBusyTime s"
  "resources (upd_task i f s) = resources s"
  "timeline (upd_task i f s) = timeline s"
  "log_ev (upd_task i f s) = log_ev s"
  "length (tasks (upd_task i f s)) = length (tasks s)"
  by (simp_all add: upd_task_def)

lemma upd_task_nth:
  "tasks (upd_task i f s) ! j = (if j = i \<and> i < length (tasks s) then f (tasks s ! i) else tasks s ! j)"
proof (cases "i < length (tasks s)")
  case True
  then show ?thesis by (simp add: upd_task_def nth_list_update)
next
  case False
  then have "length (tasks s) \<le> i" by simp
  then show ?thesis by (simp add: upd_task_def list_update_beyond)
qed

lemma logPush_fields [simp]:
  "tasks (logPush e s) = tasks s"
  "ready (logPush e s) = ready s"
  "running (logPush e s) = running s"
  "cpuState (logPush e s) = cpuState s"
  "totalEnergy (logPush e s) = totalEnergy s"
  "cpuBusyTime (logPush e s) = cpuBusyTime s"
  "resources (logPush e s) = resources s"
  "timeline (logPush e s) = timeline s"
  "log_ev (logPush e s) = log_ev s @ [e]"
  by (simp_all add: logPush_def)


lemma fold_keeps:
  "(\<And>x s. h (f x s) = h s) \<Longrightarrow> h (fold f xs s) = h s"
  by (induction xs arbitrary: s) simp_all

subsection \<open>Admission\<close>

lemma admit_one_map:
  "(\<And>x. g (x\<lparr>admitted := True\<rparr>) = g x) \<Longrightarrow> map g (tasks (admit_one t i s)) = map g (tasks s)"
  by (simp add: admit_one_def upd_task_def map_upd_same)

lemma admit_one_fields [simp]:
  "running (admit_one t i s) = running s"
  "cpuState (admit_one t i s) = cpuState s"
  "totalEnergy (admit_one t i s) = totalEnergy s"
  "cpuBusyTime (admit_one t i s) = cpuBusyTime s"
  "resources (admit_one t i s) = resources s"
  "timeline (admit_one t i s) = timeline s"
  "length (tasks (admit_one t i s)) = length (tasks s)"
  by (simp_all add: admit_one_def)

lemma admitArrivals_map:
  assumes "\<And>x. g (x\<lparr>admitted := True\<rparr>) = g x"
  shows "map g (tasks (admitArrivals t s)) = map g (tasks s)"
  unfolding admitArrivals_def
  by (rule fold_keeps [where h = "\<lambda>s. map g (tasks s)"]) (simp add: admit_one_map assms)

lemma admitArrivals_fields [simp]:
  "running (admitArrivals t s) = running s"
  "cpuState (admitArrivals t s) = cpuState s"
  "totalEnergy (admitArrivals t s) = totalEnergy s"
  "cpuBusyTime (admitArrivals t s) = cpuBusyTime s"
  "resources (admitArrivals t s) = resources s"
  "timeline (admitArrivals t s) = timeline s"
  "length (tasks (admitArrivals t s)) = length (tasks s)"
  unfolding admitArrivals_def
  by (rule fold_keeps, simp)+

subsection \<open>Priority inheritance\<close>

lemma pi_one_map:
  "(\<And>x. g (x\<lparr>boosted := True\<rparr>) = g x) \<Longrightarrow> map g (tasks (pi_one t w s)) = map g (tasks s)"
  by (simp add: pi_one_def upd_task_map split: option.splits)

lemma pi_one_fields [simp]:
  "ready (pi_one t w s) = ready s"
  "running (pi_one t w s) = running s"
  "cpuState (pi_one t w s) = cpuState s"
  "totalEnergy (pi_one t w s) = totalEnergy s"
  "cpuBusyTime (pi_one t w s) = cpuBusyTime s"
  "resources (pi_one t w s) = resources s"
  "timeline (pi_one t w s) = timeline s"
  "length (tasks (pi_one t w s)) = length (tasks s)"
  by (simp_all add: pi_one_def split: option.splits)

lemma fold_pi_one_map:
  assumes "\<And>x. g (x\<lparr>boosted := True\<rparr>) = g x"
  shows "map g (tasks (fold (pi_one t) ws s)) = map g (tasks s)"
  by (rule fold_keeps [where h = "\<lambda>s. map g (tasks s)"]) (simp add: pi_one_map assms)

lemma fold_pi_one_fields [simp]:
  "ready (fold (pi_one t) ws s) = ready s"
  "running (fold (pi_one t) ws s) = running s"
  "cpuState (fold (pi_one t) ws s) = cpuState s"
  "totalEnergy (fold (pi_one t) ws s) = totalEnergy s"
  "cpuBusyTime (fold (pi_one t) ws s) = cpuBusyTime s"
  "resources (fold (pi_one t) ws s) = resources s"
  "timeline (fold (pi_one t) ws s) = timeline s"
  "length (tasks (fold (pi_one t) ws s)) = length (tasks s)"
  by (rule fold_keeps, simp)+

lemma applyPriorityInheritance_map:
  assumes "\<And>x b. g (x\<lparr>boosted := b\<rparr>) = g x"
  shows "map g (tasks (applyPriorityInheritance t s)) = map g (tasks s)"
  by (simp add: applyPriorityInheritance_def fold_pi_one_map assms)

lemma applyPriorityInheritance_fields [simp]:
  "ready (applyPriorityInheritance t s) = ready s"
  "running (applyPriorityInheritance t s) = running s"
  "cpuState (applyPriorityInheritance t s) = cpuState s"
  "totalEnergy (applyPriorityInheritance t s) = totalEnergy s"
  "cpuBusyTime (applyPriorityInheritance t s) = cpuBusyTime s"
  "resources (applyPriorityInheritance t s) = resources s"
  "timeline (applyPriorityInheritance t s) = timeline s"
  "length (tasks (applyPriorityInheritance t s)) = length (tasks s)"
  by (simp_all add: applyPriorityInheritance_def)

lemma before_select_map:
  assumes "\<And>x. g (x\<lparr>admitted := True\<rparr>) = g x"
    and "\<And>x b. g (x\<lparr>boosted := b\<rparr>) = g x"
    and "\<And>x b. g (x\<lparr>effectiveCritical := b\<rparr>) = g x"
  shows "map g (tasks (before_select t s)) = map g (tasks s)"
proof -
  have "map g (tasks (before_select t s))
        = map g (map (\<lambda>x. x\<lparr>boosted := False, effectiveCritical := False\<rparr>) (tasks (admitArrivals t s)))"
    by (simp add: before_select_def applyPriorityInheritance_map assms(2))
  also have "\<dots> = map g (tasks (admitArrivals t s))"
    by (simp add: assms(2,3) comp_def)
  finally show ?thesis by (simp add: admitArrivals_map assms(1))
qed

lemma before_select_fields [simp]:
  "running (before_select t s) = running s"
  "cpuState (before_select t s) = cpuState s"
  "totalEnergy (before_select t s) = totalEnergy s"
  "cpuBusyTime (before_select t s) = cpuBusyTime s"
  "resources (before_select t s) = resources s"
  "timeline (before_select t s) = timeline s"
  "length (tasks (before_select t s)) = length (tasks s)"
  "ready (before_select t s) = ready (admitArrivals t s)"
  by (simp_all add: before_select_def)

subsection \<open>Sorting and selection\<close>

lemma set_insort_js [simp]: "set (insort_js cmp x ys) = insert x (set ys)"
  by (induction ys) auto

lemma set_sort_js [simp]: "set (sort_js cmp xs) = set xs"
  by (induction xs) (simp_all add: sort_js_def)

lemma first_eq_None [simp]: "first xs = None \<longleftrightarrow> xs = []"
  by (cases xs) simp_all

lemma first_in_set: "first xs = Some m \<Longrightarrow> m \<in> set xs"
  by (cases xs) auto

lemma first_insort_js:
  "first (insort_js cmp x ys) =
     (case first ys of None \<Rightarrow> Some x
      | Some y \<Rightarrow> if js_gt (cmp x y) (Fin 0) then Some y else Some x)"
  by (cases ys) simp_all

lemma sort_js_Cons: "sort_js cmp (x # xs) = insort_js cmp x (sort_js cmp xs)"
  by (simp add: sort_js_def)

lemma sort_js_eq_Nil [simp]: "sort_js cmp xs = [] \<longleftrightarrow> xs = []"
  by (metis set_sort_js set_empty)




lemma first_sort_js_least:
  assumes behind: "\<And>x y. x \<in> set xs \<Longrightarrow> y \<in> set xs \<Longrightarrow> js_gt (cmp x y) (Fin 0) \<Longrightarrow> le y x"
    and ahead: "\<And>x y. x \<in> set xs \<Longrightarrow> y \<in> set xs \<Longrightarrow> \<not> js_gt (cmp x y) (Fin 0) \<Longrightarrow> le x y"
    and trans: "\<And>x y z. x \<in> set xs \<Longrightarrow> y \<in> set xs \<Longrightarrow> z \<in> set xs \<Longrightarrow> le x y \<Longrightarrow> le y z \<Longrightarrow> le x z"
    and m: "first (sort_js cmp xs) = Some m"
  shows "\<forall>x \<in> set xs. le m x"
  using assms
proof (induction xs arbitrary: m)
  case Nil
  show ?case by simp
next
  case (Cons a xs)
  have a_in: "a \<in> set (a # xs)" by simp
  have refl: "le a a"
    using Cons.prems(1) [OF a_in a_in] Cons.prems(2) [OF a_in a_in] by blast
  have sorted: "first (insort_js cmp a (sort_js cmp xs)) = Some m"
    using Cons.prems(4) by (simp only: sort_js_Cons)
  show ?case
  proof (cases "first (sort_js cmp xs)")
    case None
    then have "xs = []" by simp
    then have "m = a" using sorted by (simp add: sort_js_def)
    then show ?thesis using refl \<open>xs = []\<close> by simp
  next
    case (Some b)
    have b_xs: "b \<in> set xs" using first_in_set [OF Some] by simp
    then have b_in: "b \<in> set (a # xs)" by simp
    have IH: "\<forall>x \<in> set xs. le b x"
    proof (rule Cons.IH [OF _ _ _ Some])
      fix x y assume "x \<in> set xs" "y \<in> set xs"
      then have x: "x \<in> set (a # xs)" and y: "y \<in> set (a # xs)" by simp_all
      show "js_gt (cmp x y) (Fin 0) \<Longrightarrow> le y x" by (rule Cons.prems(1) [OF x y])
      show "\<not> js_gt (cmp x y) (Fin 0) \<Longrightarrow> le x y" by (rule Cons.prems(2) [OF x y])
      fix z assume "z \<in> set xs"
      then have z: "z \<in> set (a # xs)" by simp
      show "le x y \<Longrightarrow> le y z \<Longrightarrow> le x z" by (rule Cons.prems(3) [OF x y z])
    qed
    show ?thesis
    proof (cases "js_gt (cmp a b) (Fin 0)")
      case True
      then have "m = b" using sorted Some by (simp add: first_insort_js)
      moreover have "le b a" by (rule Cons.prems(1) [OF a_in b_in True])
      ultimately show ?thesis using IH by simp
    next
      case False
      then have "m = a" using sorted Some by (simp add: first_insort_js)
      moreover have ab: "le a b" by (rule Cons.prems(2) [OF a_in b_in False])
      moreover have "\<forall>x \<in> set xs. le a x"
      proof
        fix x assume x: "x \<in> set xs"
        then have x_in: "x \<in> set (a # xs)" by simp
        from IH x have "le b x" by blast
        with ab show "le a x" by (rule Cons.prems(3) [OF a_in b_in x_in])
      qed
      ultimately show ?thesis using refl by simp
    qed
  qed
qed

lemma pick_None [simp]: "pick cmp ts cands = None \<longleftrightarrow> cands = []"
  by (simp add: pick_def)

lemma pick_in_set: "pick cmp ts cands = Some i \<Longrightarrow> i \<in> set cands"
  using first_in_set [of "sort_js (\<lambda>a b. cmp (ts ! a) (ts ! b)) cands" i] by (simp add: pick_def)

lemma mark_effective_map:
  assumes "\<And>x b. g (x\<lparr>effectiveCritical := b\<rparr>) = g x"
  shows "map g (tasks (mark_effective cands s)) = map g (tasks s)"
  unfolding mark_effective_def
  by (rule fold_keeps [where h = "\<lambda>s. map g (tasks s)"]) (simp add: upd_task_map assms)

lemma mark_effective_fields [simp]:
  "ready (mark_effective cands s) = ready s"
  "running (mark_effective cands s) = running s"
  "cpuState (mark_effective cands s) = cpuState s"
  "totalEnergy (mark_effective cands s) = totalEnergy s"
  "cpuBusyTime (mark_effective cands s) = cpuBusyTime s"
  "resources (mark_effective cands s) = resources s"
  "timeline (mark_effective cands s) = timeline s"
  "log_ev (mark_effective cands s) = log_ev s"
  "length (tasks (mark_effective cands s)) = length (tasks s)"
  unfolding mark_effective_def
  by (rule fold_keeps, simp)+

lemma mark_effective_nth:
  "i < length (tasks s) \<Longrightarrow>
   effectiveCritical (tasks (mark_effective cands s) ! i) =
     (if i \<in> set cands then boosted (tasks s ! i) \<or> is_critical (tasks s ! i)
      else effectiveCritical (tasks s ! i))"
proof (induction cands arbitrary: s)
  case Nil
  then show ?case by (simp add: mark_effective_def)
next
  case (Cons c cs)
  let ?s = "upd_task c (\<lambda>x. x\<lparr>effectiveCritical := (boosted x \<or> is_critical x)\<rparr>) s"
  have "mark_effective (c # cs) s = mark_effective cs ?s"
    by (simp add: mark_effective_def)
  moreover have "i < length (tasks ?s)" using Cons.prems by simp
  ultimately show ?case
    using Cons.IH [of ?s] Cons.prems by (auto simp: upd_task_nth)
qed

lemma chooseNextWithBoost_cases:
  obtains (idle) "candidates s = []" "chooseNextWithBoost sched s = (s, None)"
  | (chosen) cmp cs where "candidates s \<noteq> []" "cs \<noteq> []" "set cs \<subseteq> set (candidates s)"
      "chooseNextWithBoost sched s =
         (mark_effective (candidates s) s, pick cmp (tasks (mark_effective (candidates s) s)) cs)"
proof (cases "candidates s = []")
  case True
  then show ?thesis using idle by (simp add: chooseNextWithBoost_def)
next
  case ne: False
  let ?s = "mark_effective (candidates s) s"
  let ?crit = "filter (\<lambda>i. effectiveCritical (tasks ?s ! i)) (candidates s)"
  consider (a) "sched = ''rms''"
    | (b) "sched \<noteq> ''rms''" "sched = ''edf''"
    | (c) "sched \<noteq> ''rms''" "sched \<noteq> ''edf''" "sched = ''hybrid'' \<or> sched = ''energy-hybrid''" "?crit \<noteq> []"
    | (d) "sched \<noteq> ''rms''" "sched \<noteq> ''edf''" "sched = ''hybrid'' \<or> sched = ''energy-hybrid''" "?crit = []"
    | (e) "sched \<noteq> ''rms''" "sched \<noteq> ''edf''" "\<not> (sched = ''hybrid'' \<or> sched = ''energy-hybrid'')"
    by blast
  then show ?thesis
  proof cases
    case a
    then have "chooseNextWithBoost sched s = (?s, pick cmp_rms (tasks ?s) (candidates s))"
      using ne by (simp add: chooseNextWithBoost_def Let_def)
    then show ?thesis using chosen [of "candidates s" cmp_rms] ne by simp
  next
    case b
    then have "chooseNextWithBoost sched s = (?s, pick cmp_edf (tasks ?s) (candidates s))"
      using ne by (simp add: chooseNextWithBoost_def Let_def)
    then show ?thesis using chosen [of "candidates s" cmp_edf] ne by simp
  next
    case c
    then have "chooseNextWithBoost sched s = (?s, pick cmp_rms (tasks ?s) ?crit)"
      using ne by (simp add: chooseNextWithBoost_def Let_def)
    then show ?thesis using chosen [of ?crit cmp_rms] ne c(4) by simp
  next
    case d
    then have "chooseNextWithBoost sched s = (?s, pick cmp_edf (tasks ?s) (candidates s))"
      using ne by (simp add: chooseNextWithBoost_def Let_def)
    then show ?thesis using chosen [of "candidates s" cmp_edf] ne by simp
  next
    case e
    then have "chooseNextWithBoost sched s = (?s, pick cmp_edf (tasks ?s) (candidates s))"
      using ne by (simp add: chooseNextWithBoost_def Let_def)
    then show ?thesis using chosen [of "candidates s" cmp_edf] ne by simp
  qed
qed

lemma chooseNextWithBoost_map:
  assumes "\<And>x b. g (x\<lparr>effectiveCritical := b\<rparr>) = g x"
  shows "map g (tasks (fst (chooseNextWithBoost sched s))) = map g (tasks s)"
  by (cases rule: chooseNextWithBoost_cases [of s sched]) (simp_all add: mark_effective_map assms)

lemma chooseNextWithBoost_fields [simp]:
  "ready (fst (chooseNextWithBoost sched s)) = ready s"
  "running (fst (chooseNextWithBoost sched s)) = running s"
  "cpuState (fst (chooseNextWithBoost sched s)) = cpuState s"
  "totalEnergy (fst (chooseNextWithBoost sched s)) = totalEnergy s"
  "cpuBusyTime (fst (chooseNextWithBoost sched s)) = cpuBusyTime s"
  "resources (fst (chooseNextWithBoost sched s)) = resources s"
  "timeline (fst (chooseNextWithBoost sched s)) = timeline s"
  "log_ev (fst (chooseNextWithBoost sched s)) = log_ev s"
  "length (tasks (fst (chooseNextWithBoost sched s))) = length (tasks s)"
  by (cases rule: chooseNextWithBoost_cases [of s sched]; simp)+

lemma chooseNextWithBoost_None:
  "snd (chooseNextWithBoost sched s) = None \<longleftrightarrow> candidates s = []"
  by (cases rule: chooseNextWithBoost_cases [of s sched]) simp_all

lemma chooseNextWithBoost_in_candidates:
  "snd (chooseNextWithBoost sched s) = Some i \<Longrightarrow> i \<in> set (candidates s)"
  by (cases rule: chooseNextWithBoost_cases [of s sched]) (auto dest: pick_in_set)

subsection \<open>Execution\<close>

lemma release_held_fields [simp]:
  "tasks (release_held t i s) = tasks s"
  "ready (release_held t i s) = ready s"
  "running (release_held t i s) = running s"
  "cpuState (release_held t i s) = cpuState s"
  "totalEnergy (release_held t i s) = totalEnergy s"
  "cpuBusyTime (release_held t i s) = cpuBusyTime s"
  "timeline (release_held t i s) = timeline s"
  by (simp_all add: release_held_def split: option.splits)

lemma release_needed_fields [simp]:
  "tasks (release_needed i s) = tasks s"
  "ready (release_needed i s) = ready s"
  "running (release_needed i s) = running s"
  "cpuState (release_needed i s) = cpuState s"
  "totalEnergy (release_needed i s) = totalEnergy s"
  "cpuBusyTime (release_needed i s) = cpuBusyTime s"
  "timeline (release_needed i s) = timeline s"
  "log_ev (release_needed i s) = log_ev s"
  by (simp_all add: release_needed_def split: option.splits)

lemma complete_task_fields [simp]:
  "tasks (complete_task t i s) =
     (tasks s)[i := (tasks s ! i)\<lparr>completed := True, completion_time := Some (t + 1)\<rparr>]"
  "ready (complete_task t i s) = ready s"
  "running (complete_task t i s) = running s"
  "cpuState (complete_task t i s) = cpuState s"
  "totalEnergy (complete_task t i s) = totalEnergy s"
  "cpuBusyTime (complete_task t i s) = cpuBusyTime s"
  "timeline (complete_task t i s) = timeline s"
  by (simp_all add: complete_task_def upd_task_def)

lemma run_task_tasks:
  assumes "i < length (tasks s)"
  shows "tasks (run_task t i s) = (tasks s)[i := ran t (cpuState s) (tasks s ! i)]"
proof -
  let ?x = "tasks s ! i"
  let ?x3 = "?x\<lparr>started := True,
                  start_time := (if started ?x then start_time ?x else Some t),
                  history := extend_history t (history ?x),
                  remaining := js_sub (remaining ?x) (Fin (speed (cpuState s)))\<rparr>"
  have x1: "(if \<not> started ?x then ?x\<lparr>started := True, start_time := Some t\<rparr> else ?x)
              = ?x\<lparr>started := True, start_time := (if started ?x then start_time ?x else Some t)\<rparr>"
    by simp
  show ?thesis
    using assms
    by (simp add: run_task_def Let_def ran_def upd_task_def logPush_def x1)
qed

lemma run_task_fields [simp]:
  "ready (run_task t i s) = ready s"
  "running (run_task t i s) = running s"
  "cpuState (run_task t i s) = cpuState s"
  "totalEnergy (run_task t i s) = totalEnergy s"
  "cpuBusyTime (run_task t i s) = cpuBusyTime s + 1"
  "timeline (run_task t i s) = timeline s"
  "length (tasks (run_task t i s)) = length (tasks s)"
  by (simp_all add: run_task_def Let_def)

lemma acquire_fields [simp]:
  "ready (acquire t i s) = ready s"
  "cpuState (acquire t i s) = cpuState s"
  "totalEnergy (acquire t i s) = totalEnergy s"
  "cpuBusyTime (acquire t i s) = cpuBusyTime s"
  "timeline (acquire t i s) = timeline s"
  "length (tasks (acquire t i s)) = length (tasks s)"
  by (simp_all add: acquire_def split: option.splits)

lemma record_held_fields [simp]:
  "tasks (record_held i s) = tasks s"
  "ready (record_held i s) = ready s"
  "running (record_held i s) = running s"
  "cpuState (record_held i s) = cpuState s"
  "totalEnergy (record_held i s) = totalEnergy s"
  "cpuBusyTime (record_held i s) = cpuBusyTime s"
  "timeline (record_held i s) = timeline s"
  "log_ev (record_held i s) = log_ev s"
  by (simp_all add: record_held_def split: option.splits)

lemma acquire_running:
  "running (acquire t i s) = (if blocked s i then None else running s)"
  by (simp add: acquire_def blocked_def split: option.splits)

lemma acquire_tasks:
  "tasks (acquire t i s) =
     (if blocked s i then (tasks s)[i := (tasks s ! i)\<lparr>wait_time := wait_time (tasks s ! i) + 1\<rparr>]
      else tasks s)"
  by (simp add: acquire_def blocked_def upd_task_def split: option.splits)

lemma blocked_running_upd [simp]: "blocked (s\<lparr>running := r\<rparr>) i = blocked s i"
  by (simp add: blocked_def split: option.splits)

lemma blocked_cpu_upd [simp]: "blocked (s\<lparr>cpuState := c, totalEnergy := e\<rparr>) i = blocked s i"
  by (simp add: blocked_def split: option.splits)

lemma dispatch_blocked:
  assumes "blocked s i"
  shows "running (dispatch t i s) = None"
    and "tasks (dispatch t i s) = (tasks s)[i := (tasks s ! i)\<lparr>wait_time := wait_time (tasks s ! i) + 1\<rparr>]"
    and "cpuBusyTime (dispatch t i s) = cpuBusyTime s"
    and "resources (dispatch t i s) = resources s"
  using assms
  by (simp_all add: dispatch_def Let_def acquire_running acquire_tasks)
     (simp_all add: record_held_def acquire_def blocked_def split: option.splits)

lemma dispatch_unblocked:
  assumes "\<not> blocked s i" and "i < length (tasks s)"
  shows "running (dispatch t i s) = Some i"
    and "tasks (dispatch t i s) = (tasks s)[i := ran t (cpuState s) (tasks s ! i)]"
    and "cpuBusyTime (dispatch t i s) = cpuBusyTime s + 1"
  using assms
  by (simp_all add: dispatch_def Let_def acquire_running acquire_tasks run_task_tasks)

lemma dispatch_fields [simp]:
  "ready (dispatch t i s) = ready s"
  "cpuState (dispatch t i s) = cpuState s"
  "totalEnergy (dispatch t i s) = totalEnergy s"
  "timeline (dispatch t i s) = timeline s"
  "length (tasks (dispatch t i s)) = length (tasks s)"
  by (simp_all add: dispatch_def Let_def)

subsection \<open>Waiting\<close>

lemma wait_one_fields [simp]:
  "ready (wait_one i s) = ready s"
  "running (wait_one i s) = running s"
  "cpuState (wait_one i s) = cpuState s"
  "totalEnergy (wait_one i s) = totalEnergy s"
  "cpuBusyTime (wait_one i s) = cpuBusyTime s"
  "resources (wait_one i s) = resources s"
  "timeline (wait_one i s) = timeline s"
  "log_ev (wait_one i s) = log_ev s"
  "length (tasks (wait_one i s)) = length (tasks s)"
  by (simp_all add: wait_one_def)

lemma wait_one_map:
  "(\<And>x n. g (x\<lparr>wait_time := n\<rparr>) = g x) \<Longrightarrow> map g (tasks (wait_one i s)) = map g (tasks s)"
  by (simp add: wait_one_def upd_task_map)

lemma wait_one_nth:
  "tasks (wait_one i s) ! j =
     (if j = i \<and> i < length (tasks s) \<and> \<not> completed (tasks s ! i) \<and> running s \<noteq> Some i
      then (tasks s ! i)\<lparr>wait_time := wait_time (tasks s ! i) + 1\<rparr> else tasks s ! j)"
  by (simp add: wait_one_def upd_task_nth)

lemma fold_wait_one_fields [simp]:
  "ready (fold wait_one is s) = ready s"
  "running (fold wait_one is s) = running s"
  "cpuState (fold wait_one is s) = cpuState s"
  "totalEnergy (fold wait_one is s) = totalEnergy s"
  "cpuBusyTime (fold wait_one is s) = cpuBusyTime s"
  "resources (fold wait_one is s) = resources s"
  "timeline (fold wait_one is s) = timeline s"
  "log_ev (fold wait_one is s) = log_ev s"
  "length (tasks (fold wait_one is s)) = length (tasks s)"
  by (rule fold_keeps, simp)+

lemma fold_wait_one_nth:
  "distinct is \<Longrightarrow> j < length (tasks s) \<Longrightarrow>
   tasks (fold wait_one is s) ! j =
     (if j \<in> set is \<and> \<not> completed (tasks s ! j) \<and> running s \<noteq> Some j
      then (tasks s ! j)\<lparr>wait_time := wait_time (tasks s ! j) + 1\<rparr> else tasks s ! j)"
proof (induction "is" arbitrary: s)
  case Nil
  show ?case by simp
next
  case (Cons a "is")
  have d: "distinct is" and a: "a \<notin> set is" using Cons.prems(1) by simp_all
  have len: "j < length (tasks (wait_one a s))" using Cons.prems(2) by simp
  have step: "tasks (fold wait_one (a # is) s) ! j = tasks (fold wait_one is (wait_one a s)) ! j"
    by simp
  show ?case
  proof (cases "j = a")
    case True
    then have "tasks (fold wait_one is (wait_one a s)) ! j = tasks (wait_one a s) ! j"
      using Cons.IH [OF d len] a by simp
    then show ?thesis using True Cons.prems(2) step by (simp add: wait_one_nth)
  next
    case False
    then have same: "tasks (wait_one a s) ! j = tasks s ! j" by (simp add: wait_one_nth)
    show ?thesis using Cons.IH [OF d len] False step by (simp add: same)
  qed
qed

lemma update_waits_fields [simp]:
  "ready (update_waits s) = ready s"
  "running (update_waits s) = running s"
  "cpuState (update_waits s) = cpuState s"
  "totalEnergy (update_waits s) = totalEnergy s"
  "cpuBusyTime (update_waits s) = cpuBusyTime s"
  "resources (update_waits s) = resources s"
  "timeline (update_waits s) = timeline s"
  "log_ev (update_waits s) = log_ev s"
  "length (tasks (update_waits s)) = length (tasks s)"
  by (simp_all add: update_waits_def)

lemma update_waits_map:
  assumes "\<And>x n. g (x\<lparr>wait_time := n\<rparr>) = g x"
  shows "map g (tasks (update_waits s)) = map g (tasks s)"
  unfolding update_waits_def
  by (rule fold_keeps [where h = "\<lambda>s. map g (tasks s)"]) (simp add: wait_one_map assms)

lemma update_waits_nth:
  "distinct (ready s) \<Longrightarrow> j < length (tasks s) \<Longrightarrow>
   tasks (update_waits s) ! j =
     (if j \<in> set (ready s) \<and> \<not> completed (tasks s ! j) \<and> running s \<noteq> Some j
      then (tasks s ! j)\<lparr>wait_time := wait_time (tasks s ! j) + 1\<rparr> else tasks s ! j)"
  by (simp add: update_waits_def fold_wait_one_nth)

lemma map_eq_nthD:
  "map g xs = map g ys \<Longrightarrow> j < length ys \<Longrightarrow> g (xs ! j) = g (ys ! j)"
  by (metis length_map nth_map)

subsection \<open>The invariant\<close>

lemma wf_state_iff:
  "wf_state s \<longleftrightarrow>
     distinct (ready s)
     \<and> (\<forall>i \<in> set (ready s). i < length (tasks s) \<and> admitted (tasks s ! i))
     \<and> (\<forall>j < length (tasks s). completed (tasks s ! j) \<longrightarrow> admitted (tasks s ! j))"
  unfolding wf_state_def list_all_iff [of _ "ready s"] list_all_length [of _ "tasks s"]
  by blast

lemma wf_state_cong:
  assumes "wf_state s" and "ready s' = ready s"
    and "map (\<lambda>x. (admitted x, completed x)) (tasks s') = map (\<lambda>x. (admitted x, completed x)) (tasks s)"
  shows "wf_state s'"
proof -
  have len: "length (tasks s') = length (tasks s)"
    using assms(3) by (metis length_map)
  have eq: "\<And>j. j < length (tasks s) \<Longrightarrow>
      admitted (tasks s' ! j) = admitted (tasks s ! j) \<and> completed (tasks s' ! j) = completed (tasks s ! j)"
    using map_eq_nthD [OF assms(3)] by simp
  show ?thesis
    using assms(1,2) len eq unfolding wf_state_iff by simp
qed

lemma wf_state_upd:
  assumes "wf_state s" and "ready s' = ready s"
    and "tasks s' = (tasks s)[i := y]"
    and "admitted y = admitted (tasks s ! i)"
    and "completed y \<longrightarrow> admitted y"
  shows "wf_state s'"
proof (cases "i < length (tasks s)")
  case True
  then show ?thesis
    using assms unfolding wf_state_iff by (auto simp: nth_list_update)
next
  case False
  then have "length (tasks s) \<le> i" by simp
  then have "tasks s' = tasks s" using assms(3) by (simp add: list_update_beyond)
  then show ?thesis using assms(1,2) unfolding wf_state_iff by simp
qed

lemma wf_init: "wf_state (init_state raws)"
  by (simp add: wf_state_def init_state_def normalize_def normalize_task_def list_all_iff Let_def)

lemma ran_fields [simp]:
  "tid (ran t cs x) = tid x"
  "arrival (ran t cs x) = arrival x"
  "exec (ran t cs x) = exec x"
  "deadline_relative (ran t cs x) = deadline_relative x"
  "abs_deadline (ran t cs x) = abs_deadline x"
  "period (ran t cs x) = period x"
  "is_critical (ran t cs x) = is_critical x"
  "holds_resource (ran t cs x) = holds_resource x"
  "needs_resource (ran t cs x) = needs_resource x"
  "admitted (ran t cs x) = admitted x"
  "boosted (ran t cs x) = boosted x"
  "effectiveCritical (ran t cs x) = effectiveCritical x"
  "wait_time (ran t cs x) = wait_time x"
  "remaining (ran t cs x) = js_sub (remaining x) (Fin (speed cs))"
  "started (ran t cs x) = True"
  "history (ran t cs x) = extend_history t (history x)"
  by (simp_all add: ran_def Let_def)

lemma ran_completed:
  "completed (ran t cs x) = (completed x \<or> js_le (js_sub (remaining x) (Fin (speed cs))) (Fin (1 / 10000)))"
  "completion_time (ran t cs x) =
     (if js_le (js_sub (remaining x) (Fin (speed cs))) (Fin (1 / 10000)) then Some (t + 1)
      else completion_time x)"
  by (simp_all add: ran_def Let_def)

lemma wf_state_simps [simp]:
  "wf_state (s\<lparr>running := r\<rparr>) = wf_state s"
  "wf_state (s\<lparr>cpuState := c\<rparr>) = wf_state s"
  "wf_state (s\<lparr>totalEnergy := e\<rparr>) = wf_state s"
  "wf_state (s\<lparr>timeline := tml\<rparr>) = wf_state s"
  "wf_state (s\<lparr>resources := rs\<rparr>) = wf_state s"
  "wf_state (logPush ev s) = wf_state s"
  by (simp_all add: wf_state_def)

lemma admit_one_ready:
  "ready (admit_one t i s) =
     (if \<not> admitted (tasks s ! i) \<and> js_le (arrival (tasks s ! i)) (num t) then ready s @ [i]
      else ready s)"
  by (simp add: admit_one_def)

lemma admit_one_tasks:
  "tasks (admit_one t i s) =
     (if \<not> admitted (tasks s ! i) \<and> js_le (arrival (tasks s ! i)) (num t)
      then (tasks s)[i := (tasks s ! i)\<lparr>admitted := True\<rparr>] else tasks s)"
  by (simp add: admit_one_def upd_task_def)

lemma admit_one_wf:
  assumes "wf_state s" and "i < length (tasks s)"
  shows "wf_state (admit_one t i s)"
proof (cases "\<not> admitted (tasks s ! i) \<and> js_le (arrival (tasks s ! i)) (num t)")
  case False
  then have "admit_one t i s = s" by (auto simp: admit_one_def)
  then show ?thesis using assms(1) by simp
next
  case True
  then have r: "ready (admit_one t i s) = ready s @ [i]"
    and ts: "tasks (admit_one t i s) = (tasks s)[i := (tasks s ! i)\<lparr>admitted := True\<rparr>]"
    by (simp_all add: admit_one_ready admit_one_tasks)
  have notin: "i \<notin> set (ready s)"
    using assms(1) True unfolding wf_state_iff by blast
  show ?thesis
    using assms notin unfolding wf_state_iff r ts
    by (auto simp: nth_list_update)
qed

lemma fold_admit_one_wf:
  "wf_state s \<Longrightarrow> \<forall>i \<in> set is. i < length (tasks s) \<Longrightarrow> wf_state (fold (admit_one t) is s)"
proof (induction "is" arbitrary: s)
  case Nil
  then show ?case by simp
next
  case (Cons a "is")
  have "wf_state (admit_one t a s)" using Cons.prems by (simp add: admit_one_wf)
  moreover have "\<forall>i \<in> set is. i < length (tasks (admit_one t a s))" using Cons.prems(2) by simp
  ultimately show ?case using Cons.IH by simp
qed

lemma admitArrivals_wf: "wf_state s \<Longrightarrow> wf_state (admitArrivals t s)"
  by (simp add: admitArrivals_def fold_admit_one_wf)

lemma before_select_wf:
  assumes "wf_state s"
  shows "wf_state (before_select t s)"
proof -
  let ?a = "admitArrivals t s"
  let ?c = "?a\<lparr>tasks := map (\<lambda>x. x\<lparr>boosted := False, effectiveCritical := False\<rparr>) (tasks ?a)\<rparr>"
  have "wf_state ?c"
    by (rule wf_state_cong [OF admitArrivals_wf [OF assms, of t]]) (simp_all add: comp_def)
  then show ?thesis
    unfolding before_select_def
    by (rule wf_state_cong) (simp_all add: applyPriorityInheritance_map)
qed

lemma chooseNextWithBoost_wf:
  "wf_state s \<Longrightarrow> wf_state (fst (chooseNextWithBoost sched s))"
  by (erule wf_state_cong) (simp_all add: chooseNextWithBoost_map)

lemma candidates_subset: "set (candidates s) \<subseteq> set (ready s)"
  by (auto simp: candidates_def)

lemma selected_in_ready:
  "snd (chooseNextWithBoost sched s) = Some i \<Longrightarrow> i \<in> set (ready s)"
  using chooseNextWithBoost_in_candidates candidates_subset by blast

lemma wf_ready_lt: "wf_state s \<Longrightarrow> i \<in> set (ready s) \<Longrightarrow> i < length (tasks s)"
  by (simp add: wf_state_iff)

lemma wf_ready_admitted: "wf_state s \<Longrightarrow> i \<in> set (ready s) \<Longrightarrow> admitted (tasks s ! i)"
  by (simp add: wf_state_iff)

lemma update_waits_wf: "wf_state s \<Longrightarrow> wf_state (update_waits s)"
  by (erule wf_state_cong) (simp_all add: update_waits_map)

lemma dispatch_wf:
  assumes "wf_state s" and "i \<in> set (ready s)"
  shows "wf_state (dispatch t i s)"
proof (cases "blocked s i")
  case True
  have adm: "admitted (tasks s ! i)"
    using assms by (simp add: wf_ready_admitted)
  show ?thesis
    by (rule wf_state_upd [OF assms(1) _ dispatch_blocked(2) [OF True]]) (simp_all add: adm)
next
  case False
  have lt: "i < length (tasks s)" and adm: "admitted (tasks s ! i)"
    using assms by (simp_all add: wf_ready_lt wf_ready_admitted)
  show ?thesis
    by (rule wf_state_upd [OF assms(1) _ dispatch_unblocked(2) [OF False lt]]) (simp_all add: adm)
qed

lemma after_select_wf:
  assumes "wf_state s" and "nxt = None \<or> (\<exists>i. nxt = Some i \<and> i \<in> set (ready s))"
  shows "wf_state (after_select prm t s nxt)"
proof (cases nxt)
  case None
  then show ?thesis using assms(1) by (simp add: after_select_def Let_def update_waits_wf)
next
  case (Some i)
  then have "i \<in> set (ready s)" using assms(2) by simp
  then have "wf_state (dispatch t i (s\<lparr>cpuState := dvfs prm t s nxt,
                totalEnergy := totalEnergy s + power (dvfs prm t s nxt)\<rparr>))"
    using assms(1) by (intro dispatch_wf) simp_all
  then show ?thesis using Some by (simp add: after_select_def Let_def update_waits_wf)
qed

lemma tick_eq:
  "tick prm t s =
     after_select prm t (fst (chooseNextWithBoost (scheduler prm) (before_select t s)))
       (snd (chooseNextWithBoost (scheduler prm) (before_select t s)))"
  by (simp add: tick_def split: prod.splits)

lemma tick_wf:
  assumes "wf_state s"
  shows "wf_state (tick prm t s)"
proof -
  let ?b = "before_select t s"
  let ?c = "chooseNextWithBoost (scheduler prm) ?b"
  have wb: "wf_state ?b" by (rule before_select_wf [OF assms])
  have wc: "wf_state (fst ?c)" by (rule chooseNextWithBoost_wf [OF wb])
  have "snd ?c = None \<or> (\<exists>i. snd ?c = Some i \<and> i \<in> set (ready (fst ?c)))"
    using selected_in_ready [of "scheduler prm" ?b] by (cases "snd ?c") simp_all
  then show ?thesis unfolding tick_eq by (rule after_select_wf [OF wc])
qed

lemma push_snapshot_fields [simp]:
  "tasks (push_snapshot t s) = tasks s"
  "ready (push_snapshot t s) = ready s"
  "running (push_snapshot t s) = running s"
  "cpuState (push_snapshot t s) = cpuState s"
  "totalEnergy (push_snapshot t s) = totalEnergy s"
  "cpuBusyTime (push_snapshot t s) = cpuBusyTime s"
  "resources (push_snapshot t s) = resources s"
  "log_ev (push_snapshot t s) = log_ev s"
  "length (timeline (push_snapshot t s)) = Suc (length (timeline s))"
  by (simp_all add: push_snapshot_def)

lemma push_snapshot_wf [simp]: "wf_state (push_snapshot t s) = wf_state s"
  by (simp add: push_snapshot_def)

lemma after_select_fields [simp]:
  "ready (after_select prm t s nxt) = ready s"
  "cpuState (after_select prm t s nxt) = dvfs prm t s nxt"
  "totalEnergy (after_select prm t s nxt) = totalEnergy s + power (dvfs prm t s nxt)"
  "timeline (after_select prm t s nxt) = timeline s"
  "length (tasks (after_select prm t s nxt)) = length (tasks s)"
  by (simp_all add: after_select_def Let_def split: option.splits)

lemma tick_fields [simp]:
  "timeline (tick prm t s) = timeline s"
  "length (tasks (tick prm t s)) = length (tasks s)"
  "ready (tick prm t s) = ready (admitArrivals t s)"
  by (simp_all add: tick_eq)

lemma loop_step:
  "int t \<le> totalTime prm \<Longrightarrow> \<not> all_done (tick prm t s) \<Longrightarrow>
   loop prm t s = loop prm (Suc t) (push_snapshot t (tick prm t s))"
  by (subst loop.simps) (simp add: Let_def)

lemma loop_break:
  "int t \<le> totalTime prm \<Longrightarrow> all_done (tick prm t s) \<Longrightarrow> loop prm t s = tick prm t s"
  by (subst loop.simps) (simp add: Let_def)

lemma loop_end: "\<not> int t \<le> totalTime prm \<Longrightarrow> loop prm t s = s"
  by (subst loop.simps) simp

lemma loop_length_tasks: "length (tasks (loop prm t s)) = length (tasks s)"
proof (induction prm t s rule: loop.induct)
  case (1 prm t s)
  consider (step) "int t \<le> totalTime prm" "\<not> all_done (tick prm t s)"
    | (break) "int t \<le> totalTime prm" "all_done (tick prm t s)"
    | (stop) "\<not> int t \<le> totalTime prm"
    by blast
  then show ?case
  proof cases
    case step
    then show ?thesis using "1.IH" [OF step(1) refl step(2)] by (simp add: loop_step)
  next
    case break
    then show ?thesis by (simp add: loop_break)
  next
    case stop
    then show ?thesis by (simp add: loop_end)
  qed
qed

lemma loop_wf: "wf_state s \<Longrightarrow> wf_state (loop prm t s)"
proof (induction prm t s rule: loop.induct)
  case (1 prm t s)
  consider (step) "int t \<le> totalTime prm" "\<not> all_done (tick prm t s)"
    | (break) "int t \<le> totalTime prm" "all_done (tick prm t s)"
    | (stop) "\<not> int t \<le> totalTime prm"
    by blast
  then show ?case
  proof cases
    case step
    then show ?thesis
      using "1.IH" [OF step(1) refl step(2)] "1.prems" by (simp add: loop_step tick_wf)
  next
    case break
    then show ?thesis using "1.prems" by (simp add: loop_break tick_wf)
  next
    case stop
    then show ?thesis using "1.prems" by (simp add: loop_end)
  qed
qed

section \<open>Metrics of a run\<close>

lemma runSimulation_tasks_length:
  "length (res_tasks (runSimulation raws sched T L)) = length raws"
  by (simp add: runSimulation_def metrics_def Let_def loop_length_tasks init_state_def normalize_def)

lemma deadlineMissRatio_eq:
  "deadlineMissRatio (runSimulation raws sched T L) =
     js_div (num (length (filter missed (res_tasks (runSimulation raws sched T L)))))
       (num (length raws))"
  by (simp add: runSimulation_def metrics_def Let_def loop_length_tasks init_state_def normalize_def)

lemma avgTurnaround_eq:
  "avgTurnaround (runSimulation raws sched T L) =
     js_div (foldl (\<lambda>a x. js_add a (turnaround T x)) (Fin 0) (res_tasks (runSimulation raws sched T L)))
       (num (length raws))"
  by (simp add: runSimulation_def metrics_def Let_def loop_length_tasks init_state_def normalize_def)

lemma ratio_in_unit:
  assumes "k \<le> n" and "0 < n"
  shows "\<exists>q. js_div (num k) (num n) = Fin q \<and> 0 \<le> q \<and> q \<le> 1"
  using assms by (simp add: num_def)

lemma deadlineMissRatio_nonempty:
  assumes "raws \<noteq> []"
  shows "\<exists>q. deadlineMissRatio (runSimulation raws sched T L) = Fin q \<and> 0 \<le> q \<and> q \<le> 1"
proof -
  let ?ts = "res_tasks (runSimulation raws sched T L)"
  have "length (filter missed ?ts) \<le> length raws"
    using length_filter_le [of missed ?ts] by (simp add: runSimulation_tasks_length)
  moreover have "0 < length raws" using assms by simp
  ultimately show ?thesis unfolding deadlineMissRatio_eq by (rule ratio_in_unit)
qed

text \<open>
  C1 (as amended). On an empty task collection \<^verbatim>\<open>runSimulation\<close> divides zero by zero:
  both \<^verbatim>\<open>deadlineMissRatio\<close> and \<^verbatim>\<open>avgTurnaround\<close> are not-a-number. On every non-empty
  collection \<^verbatim>\<open>deadlineMissRatio\<close> is a number between 0 and 1, and the run handler, which
  replaces an empty collection by the sample task set, always obtains such a number.
\<close>

theorem empty_taskset_metrics:
  "deadlineMissRatio (runSimulation [] sched T L) = NaN
   \<and> avgTurnaround (runSimulation [] sched T L) = NaN
   \<and> (raws \<noteq> [] \<longrightarrow>
        (\<exists>q. deadlineMissRatio (runSimulation raws sched T L) = Fin q \<and> 0 \<le> q \<and> q \<le> 1))
   \<and> (\<exists>q. deadlineMissRatio (run_click cur sched horizon threshold) = Fin q \<and> 0 \<le> q \<and> q \<le> 1)"
proof -
  have e: "res_tasks (runSimulation [] sched T L) = []"
    using runSimulation_tasks_length [of "[]" sched T L] by simp
  have a: "deadlineMissRatio (runSimulation [] sched T L) = NaN"
    unfolding deadlineMissRatio_eq by (simp add: e num_def)
  have b: "avgTurnaround (runSimulation [] sched T L) = NaN"
    unfolding avgTurnaround_eq by (simp add: e num_def)
  have c: "(if cur = [] then SAMPLE_TASKS else cur) \<noteq> []"
    by (simp add: SAMPLE_TASKS_def)
  have d: "\<exists>q. deadlineMissRatio (run_click cur sched horizon threshold) = Fin q \<and> 0 \<le> q \<and> q \<le> 1"
    unfolding run_click_def by (rule deadlineMissRatio_nonempty [OF c])
  show ?thesis using a b d deadlineMissRatio_nonempty by blast
qed

theorem empty_taskset_metrics_witness:
  "[sample_task ''T1'' 0 1 5 Null False] \<noteq> []
   \<and> (\<exists>q. deadlineMissRatio (runSimulation [sample_task ''T1'' 0 1 5 Null False] ''edf'' 5 20) = Fin q
          \<and> 0 \<le> q \<and> q \<le> 1)"
  using empty_taskset_metrics [of "''edf''" 5 20 "[sample_task ''T1'' 0 1 5 Null False]" "[]" None None]
  by simp

theorem empty_taskset_counterexample:
  "deadlineMissRatio (runSimulation [] ''edf'' 200 20) \<noteq> Fin 0
   \<and> avgTurnaround (runSimulation [] ''edf'' 200 20) = NaN"
  by code_simp

section \<open>Normalization\<close>








section \<open>The timeline\<close>

text \<open>
  C7 (the code departs from the claim). A single task with two units of work, arriving at
  tick 0, runs in ticks 0 and 1 and completes in tick 1. Tick 1 is simulated: it is
  logged, it is charged to the energy and busy counters, and it extends the task's run
  segment to 2. The loop leaves through \<^verbatim>\<open>break\<close> before the snapshot of that tick is
  pushed, so the timeline ends with the snapshot of tick 0.
\<close>

theorem final_tick_snapshot_missing:
  "map snap_time (res_timeline (runSimulation [sample_task ''T1'' 0 2 5 Null False] ''edf'' 5 20)) = [0]
   \<and> res_log (runSimulation [sample_task ''T1'' 0 2 5 Null False] ''edf'' 5 20)
       = [EvAdmitted 0 ''T1'', EvRunning 0 ''T1'' HIGH (Fin 1), EvRunning 1 ''T1'' HIGH (Fin 0),
          EvCompleted 2 ''T1'' (Fin 5)]
   \<and> res_cpuBusyTime (runSimulation [sample_task ''T1'' 0 2 5 Null False] ''edf'' 5 20) = 2
   \<and> res_totalEnergy (runSimulation [sample_task ''T1'' 0 2 5 Null False] ''edf'' 5 20) = 20
   \<and> map history (res_tasks (runSimulation [sample_task ''T1'' 0 2 5 Null False] ''edf'' 5 20))
       = [[\<lparr>seg_start = 0, seg_end = 2\<rparr>]]"
  by code_simp

section \<open>Frequency scaling\<close>

lemma selection_state_map:
  assumes "\<And>x. g (x\<lparr>admitted := True\<rparr>) = g x"
    and "\<And>x b. g (x\<lparr>boosted := b\<rparr>) = g x"
    and "\<And>x b. g (x\<lparr>effectiveCritical := b\<rparr>) = g x"
  shows "map g (tasks (fst (chooseNextWithBoost sched (before_select t s)))) = map g (tasks s)"
  by (simp add: chooseNextWithBoost_map before_select_map assms)

lemma selection_state_nth:
  assumes "\<And>x. g (x\<lparr>admitted := True\<rparr>) = g x"
    and "\<And>x b. g (x\<lparr>boosted := b\<rparr>) = g x"
    and "\<And>x b. g (x\<lparr>effectiveCritical := b\<rparr>) = g x"
    and "j < length (tasks s)"
  shows "g (tasks (fst (chooseNextWithBoost sched (before_select t s))) ! j) = g (tasks s ! j)"
  by (rule map_eq_nthD [OF selection_state_map [of g sched t s] assms(4)]) (rule assms)+

lemma selected_lt:
  assumes "wf_state s" and "snd (chooseNextWithBoost sched (before_select t s)) = Some i"
  shows "i < length (tasks s)"
proof -
  have "i \<in> set (ready (before_select t s))" by (rule selected_in_ready [OF assms(2)])
  then have "i < length (tasks (before_select t s))"
    by (rule wf_ready_lt [OF before_select_wf [OF assms(1)]])
  then show ?thesis by simp
qed

text \<open>
  C6. After a tick, the processor state is the one the governor chose: under
  \<^verbatim>\<open>energy-hybrid\<close> it is LOW when nothing was selected, and otherwise LOW exactly when
  the laxity of the selected task, \<^verbatim>\<open>abs_deadline - (currentTime + remaining)\<close> with the
  remaining work the task has at the start of the tick, exceeds the threshold; under
  every other discipline it is HIGH. That state's power is what the tick adds to the
  energy, and its name is what the snapshot of the tick records.
\<close>

theorem dvfs_each_tick:
  assumes "wf_state s"
  shows "cpuState (tick prm t s) =
           (if scheduler prm = ''energy-hybrid'' then
              (case snd (chooseNextWithBoost (scheduler prm) (before_select t s)) of
                 None \<Rightarrow> LOW
               | Some i \<Rightarrow>
                   if js_gt (js_sub (abs_deadline (tasks s ! i)) (js_add (num t) (remaining (tasks s ! i))))
                        (inum (laxityThreshold prm))
                   then LOW else HIGH)
            else HIGH)
         \<and> totalEnergy (tick prm t s) = totalEnergy s + power (cpuState (tick prm t s))
         \<and> snap_cpu (last (timeline (push_snapshot t (tick prm t s)))) = cpu_name (cpuState (tick prm t s))"
proof -
  let ?c = "chooseNextWithBoost (scheduler prm) (before_select t s)"
  define nxt where "nxt = snd ?c"
  define s4 where "s4 = fst ?c"
  have cs: "cpuState (tick prm t s) = dvfs prm t s4 nxt"
    by (simp add: tick_eq nxt_def s4_def)
  have en: "totalEnergy (tick prm t s) = totalEnergy s + power (cpuState (tick prm t s))"
    by (simp add: tick_eq)
  have sn: "snap_cpu (last (timeline (push_snapshot t (tick prm t s)))) = cpu_name (cpuState (tick prm t s))"
    by (simp add: push_snapshot_def)
  have lax: "computeLaxity t (tasks s4 ! i)
               = js_sub (abs_deadline (tasks s ! i)) (js_add (num t) (remaining (tasks s ! i)))"
    if "nxt = Some i" for i
  proof -
    have lt: "i < length (tasks s)"
      using that unfolding nxt_def by (rule selected_lt [OF assms])
    have "abs_deadline (tasks s4 ! i) = abs_deadline (tasks s ! i)"
      unfolding s4_def by (rule selection_state_nth [where g = abs_deadline, OF _ _ _ lt]) simp_all
    moreover have "remaining (tasks s4 ! i) = remaining (tasks s ! i)"
      unfolding s4_def by (rule selection_state_nth [where g = remaining, OF _ _ _ lt]) simp_all
    ultimately show ?thesis by (simp add: computeLaxity_def)
  qed
  have main: "dvfs prm t s4 nxt =
           (if scheduler prm = ''energy-hybrid'' then
              (case nxt of
                 None \<Rightarrow> LOW
               | Some i \<Rightarrow>
                   if js_gt (js_sub (abs_deadline (tasks s ! i)) (js_add (num t) (remaining (tasks s ! i))))
                        (inum (laxityThreshold prm))
                   then LOW else HIGH)
            else HIGH)"
  proof (cases nxt)
    case None
    then show ?thesis by (simp add: dvfs_def)
  next
    case (Some i)
    then show ?thesis using lax [OF Some] by (simp add: dvfs_def)
  qed
  have A: "cpuState (tick prm t s) =
           (if scheduler prm = ''energy-hybrid'' then
              (case snd ?c of
                 None \<Rightarrow> LOW
               | Some i \<Rightarrow>
                   if js_gt (js_sub (abs_deadline (tasks s ! i)) (js_add (num t) (remaining (tasks s ! i))))
                        (inum (laxityThreshold prm))
                   then LOW else HIGH)
            else HIGH)"
    using trans [OF cs main] unfolding nxt_def .
  show ?thesis by (intro conjI A en sn)
qed

theorem dvfs_each_tick_witness:
  "wf_state (init_state [sample_task ''T1'' 0 2 50 Null False])
   \<and> cpuState (tick \<lparr>scheduler = ''energy-hybrid'', totalTime = 5, laxityThreshold = 20\<rparr> 0
        (init_state [sample_task ''T1'' 0 2 50 Null False])) = LOW
   \<and> totalEnergy (tick \<lparr>scheduler = ''energy-hybrid'', totalTime = 5, laxityThreshold = 20\<rparr> 0
        (init_state [sample_task ''T1'' 0 2 50 Null False])) = 3"
proof -
  let ?s = "init_state [sample_task ''T1'' 0 2 50 Null False]"
  let ?p = "\<lparr>scheduler = ''energy-hybrid'', totalTime = 5, laxityThreshold = 20\<rparr>"
  have wf: "wf_state ?s" by (rule wf_init)
  have sel: "snd (chooseNextWithBoost ''energy-hybrid'' (before_select 0 ?s)) = Some 0"
    by code_simp
  have lax: "js_gt (js_sub (abs_deadline (tasks ?s ! 0)) (js_add (num 0) (remaining (tasks ?s ! 0))))
               (inum 20)"
    by code_simp
  have e0: "totalEnergy ?s = 0" by (simp add: init_state_def)
  show ?thesis
    using dvfs_each_tick [OF wf, of ?p 0] wf sel lax e0 by simp
qed

section \<open>The ordering of candidates\<close>

lemma js_lt_irrefl [simp]: "\<not> js_lt x x"
  by (cases x) simp_all

lemma js_lt_trans: "js_lt x y \<Longrightarrow> js_lt y z \<Longrightarrow> js_lt x z"
  by (cases x; cases y; cases z) simp_all

lemma js_lt_asym: "js_lt x y \<Longrightarrow> \<not> js_lt y x"
  by (cases x; cases y) simp_all

lemma js_lt_total: "x \<noteq> NaN \<Longrightarrow> y \<noteq> NaN \<Longrightarrow> js_lt x y \<or> x = y \<or> js_lt y x"
  by (cases x; cases y) auto

lemma js_sub_truthy: "x \<noteq> NaN \<Longrightarrow> y \<noteq> NaN \<Longrightarrow> js_truthy (js_sub x y) \<longleftrightarrow> x \<noteq> y"
  by (cases x; cases y) (simp_all add: js_sub_def js_truthy_def)

lemma js_sub_pos: "js_gt (js_sub x y) (Fin 0) \<longleftrightarrow> js_lt y x"
  by (cases x; cases y) (simp_all add: js_sub_def js_gt_def)

lemma localeCompare_refl [simp]: "localeCompare a a = 0"
  by (induction a) simp_all

lemma localeCompare_eq: "localeCompare a b = 0 \<Longrightarrow> a = b"
  by (induction a b rule: localeCompare.induct) (auto split: if_splits)

lemma localeCompare_flip: "localeCompare a b > 0 \<longleftrightarrow> localeCompare b a < 0"
  by (induction a b rule: localeCompare.induct) auto

lemma localeCompare_total: "localeCompare a b \<le> 0 \<or> localeCompare b a \<le> 0"
  using localeCompare_flip [of a b] by linarith

lemma localeCompare_trans:
  "localeCompare a b \<le> 0 \<Longrightarrow> localeCompare b c \<le> 0 \<Longrightarrow> localeCompare a c \<le> 0"
proof (induction a b arbitrary: c rule: localeCompare.induct)
  case 1
  then show ?case by simp
next
  case (2 b bs)
  then show ?case by (cases c) simp_all
next
  case (3 a as)
  then show ?case by simp
next
  case (4 a as b bs)
  show ?case
  proof (cases c)
    case Nil
    then show ?thesis using "4.prems" by simp
  next
    case (Cons d ds)
    show ?thesis
      using "4.prems" "4.IH" [of ds] unfolding Cons
      by (auto split: if_splits)
  qed
qed

lemma cmp_rms_key: "cmp_rms = cmp_key period"
  by (intro ext) (simp add: cmp_rms_def cmp_key_def)

lemma cmp_edf_key: "cmp_edf = cmp_key abs_deadline"
  by (intro ext) (simp add: cmp_edf_def cmp_key_def)

lemma cmp_key_behind:
  assumes "k a \<noteq> NaN" "k b \<noteq> NaN" "arrival a \<noteq> NaN" "arrival b \<noteq> NaN"
  shows "js_gt (cmp_key k a b) (Fin 0) \<longleftrightarrow> \<not> key_le k a b"
proof (cases "k a = k b")
  case False
  then have "cmp_key k a b = js_sub (k a) (k b)"
    using assms by (simp add: cmp_key_def or_else_def js_sub_truthy)
  moreover have "js_lt (k b) (k a) \<longleftrightarrow> \<not> js_lt (k a) (k b)"
    using False js_lt_total [OF assms(1,2)] js_lt_asym by blast
  ultimately show ?thesis using False by (simp add: js_sub_pos key_le_def)
next
  case keq: True
  show ?thesis
  proof (cases "arrival a = arrival b")
    case False
    then have "cmp_key k a b = js_sub (arrival a) (arrival b)"
      using assms keq by (simp add: cmp_key_def or_else_def js_sub_truthy)
    moreover have "js_lt (arrival b) (arrival a) \<longleftrightarrow> \<not> js_lt (arrival a) (arrival b)"
      using False js_lt_total [OF assms(3,4)] js_lt_asym by blast
    ultimately show ?thesis using False keq by (simp add: js_sub_pos key_le_def)
  next
    case True
    then have "cmp_key k a b = inum (localeCompare (tid a) (tid b))"
      using assms keq by (simp add: cmp_key_def or_else_def js_sub_truthy)
    then show ?thesis using True keq by (auto simp: key_le_def inum_def js_gt_def)
  qed
qed

lemma key_le_total:
  assumes "k a \<noteq> NaN" "k b \<noteq> NaN" "arrival a \<noteq> NaN" "arrival b \<noteq> NaN"
  shows "key_le k a b \<or> key_le k b a"
  using js_lt_total [OF assms(1,2)] js_lt_total [OF assms(3,4)] localeCompare_total [of "tid a" "tid b"]
  unfolding key_le_def by metis

lemma key_le_trans:
  assumes "key_le k a b" and "key_le k b c"
  shows "key_le k a c"
proof -
  consider (1) "js_lt (k a) (k b)"
    | (2) "k a = k b" "js_lt (arrival a) (arrival b)"
    | (3) "k a = k b" "arrival a = arrival b" "localeCompare (tid a) (tid b) \<le> 0"
    using assms(1) unfolding key_le_def by blast
  then show ?thesis
  proof cases
    case 1
    then show ?thesis using assms(2) unfolding key_le_def by (auto intro: js_lt_trans)
  next
    case 2
    then show ?thesis using assms(2) unfolding key_le_def by (auto intro: js_lt_trans)
  next
    case 3
    then show ?thesis using assms(2) unfolding key_le_def by (auto intro: localeCompare_trans)
  qed
qed

lemma pick_least:
  assumes nonan: "\<forall>j \<in> set cands. k (ts ! j) \<noteq> NaN \<and> arrival (ts ! j) \<noteq> NaN"
    and p: "pick (cmp_key k) ts cands = Some i"
  shows "i \<in> set cands \<and> (\<forall>j \<in> set cands. key_le k (ts ! i) (ts ! j))"
proof -
  let ?cmp = "\<lambda>a b. cmp_key k (ts ! a) (ts ! b)"
  let ?le = "\<lambda>a b. key_le k (ts ! a) (ts ! b)"
  have f: "first (sort_js ?cmp cands) = Some i" using p by (simp add: pick_def)
  have "\<forall>x \<in> set cands. ?le i x"
  proof (rule first_sort_js_least [where cmp = ?cmp and le = ?le, OF _ _ _ f])
    fix x y assume x: "x \<in> set cands" and y: "y \<in> set cands"
    have beh: "js_gt (?cmp x y) (Fin 0) \<longleftrightarrow> \<not> ?le x y"
      using nonan x y by (intro cmp_key_behind) simp_all
    have tot: "?le x y \<or> ?le y x"
      using nonan x y by (intro key_le_total) simp_all
    show "js_gt (?cmp x y) (Fin 0) \<Longrightarrow> ?le y x" using beh tot by blast
    show "\<not> js_gt (?cmp x y) (Fin 0) \<Longrightarrow> ?le x y" using beh by blast
    fix z
    show "?le x y \<Longrightarrow> ?le y z \<Longrightarrow> ?le x z" by (rule key_le_trans)
  qed
  then show ?thesis using pick_in_set [OF p] by simp
qed

section \<open>What the policy selects\<close>

lemma key_le_cong:
  assumes "k a' = k a" "arrival a' = arrival a" "tid a' = tid a"
    and "k b' = k b" "arrival b' = arrival b" "tid b' = tid b"
  shows "key_le k a' b' = key_le k a b"
  using assms by (simp add: key_le_def)

lemma candidates_lt: "wf_state s \<Longrightarrow> j \<in> set (candidates s) \<Longrightarrow> j < length (tasks s)"
  using candidates_subset wf_ready_lt by blast

lemma mark_effective_keys:
  assumes "j < length (tasks s)"
  shows "period (tasks (mark_effective cands s) ! j) = period (tasks s ! j)"
    and "abs_deadline (tasks (mark_effective cands s) ! j) = abs_deadline (tasks s ! j)"
    and "arrival (tasks (mark_effective cands s) ! j) = arrival (tasks s ! j)"
    and "tid (tasks (mark_effective cands s) ! j) = tid (tasks s ! j)"
  by (rule map_eq_nthD [OF mark_effective_map assms], simp)+

lemma pick_marked_least:
  assumes wf: "wf_state s"
    and k: "\<And>j. j < length (tasks s) \<Longrightarrow> k (tasks (mark_effective cands s) ! j) = k (tasks s ! j)"
    and sub: "set cs \<subseteq> set (candidates s)"
    and nonan: "\<forall>j \<in> set cs. k (tasks s ! j) \<noteq> NaN \<and> arrival (tasks s ! j) \<noteq> NaN"
    and p: "pick (cmp_key k) (tasks (mark_effective cands s)) cs = Some i"
  shows "i \<in> set cs \<and> (\<forall>j \<in> set cs. key_le k (tasks s ! i) (tasks s ! j))"
proof -
  let ?ts = "tasks (mark_effective cands s)"
  have lt: "j < length (tasks s)" if "j \<in> set cs" for j
    using that sub candidates_lt [OF wf] by blast
  have nonan': "\<forall>j \<in> set cs. k (?ts ! j) \<noteq> NaN \<and> arrival (?ts ! j) \<noteq> NaN"
    using nonan lt by (simp add: k mark_effective_keys)
  have least: "i \<in> set cs \<and> (\<forall>j \<in> set cs. key_le k (?ts ! i) (?ts ! j))"
    by (rule pick_least [OF nonan' p])
  have "key_le k (?ts ! i) (?ts ! j) = key_le k (tasks s ! i) (tasks s ! j)" if "j \<in> set cs" for j
    using least that lt by (intro key_le_cong) (simp_all add: k mark_effective_keys)
  then show ?thesis using least by simp
qed

lemma chooseNextWithBoost_edf:
  assumes "sched \<noteq> ''rms''" "sched \<noteq> ''hybrid''" "sched \<noteq> ''energy-hybrid''"
    and "candidates s \<noteq> []"
  shows "snd (chooseNextWithBoost sched s)
           = pick cmp_edf (tasks (mark_effective (candidates s) s)) (candidates s)"
  using assms by (simp add: chooseNextWithBoost_def Let_def)

lemma chooseNextWithBoost_hybrid:
  assumes "sched = ''hybrid'' \<or> sched = ''energy-hybrid''"
    and "candidates s \<noteq> []"
  shows "snd (chooseNextWithBoost sched s)
           = (if filter (\<lambda>i. effectiveCritical (tasks (mark_effective (candidates s) s) ! i)) (candidates s) \<noteq> []
              then pick cmp_rms (tasks (mark_effective (candidates s) s))
                     (filter (\<lambda>i. effectiveCritical (tasks (mark_effective (candidates s) s) ! i)) (candidates s))
              else pick cmp_edf (tasks (mark_effective (candidates s) s)) (candidates s))"
  using assms by (auto simp: chooseNextWithBoost_def Let_def)

lemma critical_ready_eq:
  assumes "wf_state s"
  shows "filter (\<lambda>i. effectiveCritical (tasks (mark_effective (candidates s) s) ! i)) (candidates s)
           = filter (\<lambda>i. is_critical (tasks s ! i) \<or> boosted (tasks s ! i)) (candidates s)"
  by (rule filter_cong [OF refl]) (auto simp: mark_effective_nth candidates_lt [OF assms])

text \<open>
  C4 (as amended). Under \<^verbatim>\<open>edf\<close> and under every scheduler name that is none of
  \<^verbatim>\<open>rms\<close>, \<^verbatim>\<open>hybrid\<close>, \<^verbatim>\<open>energy-hybrid\<close>, provided the absolute deadline and the arrival
  of every candidate are numbers (not \<^verbatim>\<open>NaN\<close>): the candidates are the tasks of the ready
  list with remaining above 0 and not completed; the task selected in a tick is a candidate
  that is not behind any candidate in the earliest-deadline ordering (smaller absolute
  deadline, then smaller arrival, then smaller identifier); with no candidate, nothing is
  selected.
\<close>

theorem edf_selects_earliest_deadline:
  assumes "wf_state s"
    and "scheduler prm \<noteq> ''rms''" "scheduler prm \<noteq> ''hybrid''" "scheduler prm \<noteq> ''energy-hybrid''"
    and "\<forall>j \<in> set (candidates (before_select t s)).
           abs_deadline (tasks (before_select t s) ! j) \<noteq> NaN
           \<and> arrival (tasks (before_select t s) ! j) \<noteq> NaN"
  shows "set (candidates (before_select t s))
           = {j \<in> set (ready (before_select t s)).
                js_gt (remaining (tasks (before_select t s) ! j)) (Fin 0)
                \<and> \<not> completed (tasks (before_select t s) ! j)}
         \<and> (candidates (before_select t s) = [] \<longrightarrow>
               snd (chooseNextWithBoost (scheduler prm) (before_select t s)) = None)
         \<and> (candidates (before_select t s) \<noteq> [] \<longrightarrow>
               (\<exists>i. snd (chooseNextWithBoost (scheduler prm) (before_select t s)) = Some i
                    \<and> i \<in> set (candidates (before_select t s))
                    \<and> (\<forall>j \<in> set (candidates (before_select t s)).
                          edf_le (tasks (before_select t s) ! i) (tasks (before_select t s) ! j))))"
proof -
  let ?b = "before_select t s"
  have wb: "wf_state ?b" by (rule before_select_wf [OF assms(1)])
  have c1: "set (candidates ?b)
           = {j \<in> set (ready ?b). js_gt (remaining (tasks ?b ! j)) (Fin 0) \<and> \<not> completed (tasks ?b ! j)}"
    by (simp add: candidates_def)
  have c2: "candidates ?b = [] \<longrightarrow> snd (chooseNextWithBoost (scheduler prm) ?b) = None"
    by (simp add: chooseNextWithBoost_None)
  have c3: "candidates ?b \<noteq> [] \<longrightarrow>
               (\<exists>i. snd (chooseNextWithBoost (scheduler prm) ?b) = Some i
                    \<and> i \<in> set (candidates ?b)
                    \<and> (\<forall>j \<in> set (candidates ?b). edf_le (tasks ?b ! i) (tasks ?b ! j)))"
  proof
    assume ne: "candidates ?b \<noteq> []"
    have eq: "snd (chooseNextWithBoost (scheduler prm) ?b)
                = pick (cmp_key abs_deadline) (tasks (mark_effective (candidates ?b) ?b)) (candidates ?b)"
      using chooseNextWithBoost_edf [OF assms(2-4) ne] by (simp add: cmp_edf_key)
    then obtain i where i: "pick (cmp_key abs_deadline) (tasks (mark_effective (candidates ?b) ?b)) (candidates ?b) = Some i"
      using ne by (cases "pick (cmp_key abs_deadline) (tasks (mark_effective (candidates ?b) ?b)) (candidates ?b)") simp_all
    have "i \<in> set (candidates ?b) \<and> (\<forall>j \<in> set (candidates ?b). key_le abs_deadline (tasks ?b ! i) (tasks ?b ! j))"
      by (rule pick_marked_least [OF wb _ _ assms(5) i]) (simp_all add: mark_effective_keys)
    then show "\<exists>i. snd (chooseNextWithBoost (scheduler prm) ?b) = Some i
                    \<and> i \<in> set (candidates ?b)
                    \<and> (\<forall>j \<in> set (candidates ?b). edf_le (tasks ?b ! i) (tasks ?b ! j))"
      using eq i by (auto simp: edf_le_def)
  qed
  show ?thesis by (intro conjI c1 c2 c3)
qed

theorem edf_selects_earliest_deadline_witness:
  "wf_state (init_state [sample_task ''T1'' 0 30 50 Null False, sample_task ''T2'' 0 20 40 Null False])
   \<and> ''edf'' \<noteq> ''rms'' \<and> ''edf'' \<noteq> ''hybrid'' \<and> ''edf'' \<noteq> ''energy-hybrid''
   \<and> candidates (before_select 0
        (init_state [sample_task ''T1'' 0 30 50 Null False, sample_task ''T2'' 0 20 40 Null False])) = [0, 1]
   \<and> (\<exists>i. snd (chooseNextWithBoost ''edf'' (before_select 0
              (init_state [sample_task ''T1'' 0 30 50 Null False, sample_task ''T2'' 0 20 40 Null False]))) = Some i
          \<and> edf_le
               (tasks (before_select 0
                  (init_state [sample_task ''T1'' 0 30 50 Null False, sample_task ''T2'' 0 20 40 Null False])) ! i)
               (tasks (before_select 0
                  (init_state [sample_task ''T1'' 0 30 50 Null False, sample_task ''T2'' 0 20 40 Null False])) ! 0))"
proof -
  let ?s = "init_state [sample_task ''T1'' 0 30 50 Null False, sample_task ''T2'' 0 20 40 Null False]"
  let ?p = "\<lparr>scheduler = ''edf'', totalTime = 5, laxityThreshold = 20\<rparr>"
  have wf: "wf_state ?s" by (rule wf_init)
  have cands: "candidates (before_select 0 ?s) = [0, 1]" by code_simp
  have nonan: "\<forall>j \<in> set (candidates (before_select 0 ?s)).
           abs_deadline (tasks (before_select 0 ?s) ! j) \<noteq> NaN
           \<and> arrival (tasks (before_select 0 ?s) ! j) \<noteq> NaN"
    unfolding cands by code_simp
  have sch: "scheduler ?p \<noteq> ''rms''" "scheduler ?p \<noteq> ''hybrid''" "scheduler ?p \<noteq> ''energy-hybrid''"
    by simp_all
  have ne: "candidates (before_select 0 ?s) \<noteq> []" by (simp add: cands)
  have "\<exists>i. snd (chooseNextWithBoost (scheduler ?p) (before_select 0 ?s)) = Some i
                    \<and> i \<in> set (candidates (before_select 0 ?s))
                    \<and> (\<forall>j \<in> set (candidates (before_select 0 ?s)).
                          edf_le (tasks (before_select 0 ?s) ! i) (tasks (before_select 0 ?s) ! j))"
    using edf_selects_earliest_deadline [of ?s ?p 0, OF wf sch nonan, THEN conjunct2, THEN conjunct2] ne
    by (rule mp)
  then obtain i where i: "snd (chooseNextWithBoost ''edf'' (before_select 0 ?s)) = Some i"
    and le: "\<forall>j \<in> set (candidates (before_select 0 ?s)).
                          edf_le (tasks (before_select 0 ?s) ! i) (tasks (before_select 0 ?s) ! j)"
    by auto
  have "edf_le (tasks (before_select 0 ?s) ! i) (tasks (before_select 0 ?s) ! 0)"
    using le by (simp add: cands)
  then show ?thesis using wf cands i by simp
qed

text \<open>
  Without the proviso the claim fails. The descriptor of \<^verbatim>\<open>a\<close> has the object \<^verbatim>\<open>{}\<close> as
  its deadline, which normalization turns into \<^verbatim>\<open>NaN\<close>; \<^verbatim>\<open>b\<close> has deadline 5. In tick 0
  both are candidates. The comparator's difference of the deadlines is \<^verbatim>\<open>NaN\<close>, which is
  falsy, so the pair is ordered by arrival and identifier, and \<^verbatim>\<open>a\<close> is selected although
  its absolute deadline is not minimal.
\<close>

theorem edf_nan_deadline_counterexample:
  "candidates (before_select 0
       (init_state [(sample_task ''a'' 0 5 0 Null False)\<lparr>r_deadline := Obj\<rparr>,
                    sample_task ''b'' 0 5 5 Null False])) = [0, 1]
   \<and> snd (chooseNextWithBoost ''edf'' (before_select 0
       (init_state [(sample_task ''a'' 0 5 0 Null False)\<lparr>r_deadline := Obj\<rparr>,
                    sample_task ''b'' 0 5 5 Null False]))) = Some 0
   \<and> abs_deadline (tasks (before_select 0
       (init_state [(sample_task ''a'' 0 5 0 Null False)\<lparr>r_deadline := Obj\<rparr>,
                    sample_task ''b'' 0 5 5 Null False])) ! 0) = NaN
   \<and> abs_deadline (tasks (before_select 0
       (init_state [(sample_task ''a'' 0 5 0 Null False)\<lparr>r_deadline := Obj\<rparr>,
                    sample_task ''b'' 0 5 5 Null False])) ! 1) = Fin 5
   \<and> \<not> edf_le
       (tasks (before_select 0
          (init_state [(sample_task ''a'' 0 5 0 Null False)\<lparr>r_deadline := Obj\<rparr>,
                       sample_task ''b'' 0 5 5 Null False])) ! 0)
       (tasks (before_select 0
          (init_state [(sample_task ''a'' 0 5 0 Null False)\<lparr>r_deadline := Obj\<rparr>,
                       sample_task ''b'' 0 5 5 Null False])) ! 1)"
  by code_simp

text \<open>
  C3 (as amended). Under \<^verbatim>\<open>hybrid\<close> and \<^verbatim>\<open>energy-hybrid\<close>, provided the period, the
  absolute deadline and the arrival of every candidate are numbers (not \<^verbatim>\<open>NaN\<close>): when
  some candidate of the tick is critical or was boosted in this tick, the selected task is
  one of those candidates and is not behind any of them in the rate-monotonic ordering
  (smaller period, then smaller arrival, then smaller identifier); when no candidate is,
  the selected task is a candidate that is not behind any candidate in the
  earliest-deadline ordering; with no candidate, nothing is selected. The candidates are
  the tasks of the ready list with remaining above 0 and not completed.
\<close>

theorem hybrid_selects_critical_first:
  assumes "wf_state s"
    and "scheduler prm = ''hybrid'' \<or> scheduler prm = ''energy-hybrid''"
    and "\<forall>j \<in> set (candidates (before_select t s)).
           period (tasks (before_select t s) ! j) \<noteq> NaN
           \<and> abs_deadline (tasks (before_select t s) ! j) \<noteq> NaN
           \<and> arrival (tasks (before_select t s) ! j) \<noteq> NaN"
  shows "(filter (\<lambda>j. is_critical (tasks (before_select t s) ! j) \<or> boosted (tasks (before_select t s) ! j))
            (candidates (before_select t s)) \<noteq> [] \<longrightarrow>
           (\<exists>i. snd (chooseNextWithBoost (scheduler prm) (before_select t s)) = Some i
                \<and> i \<in> set (candidates (before_select t s))
                \<and> (is_critical (tasks (before_select t s) ! i) \<or> boosted (tasks (before_select t s) ! i))
                \<and> (\<forall>j \<in> set (candidates (before_select t s)).
                      is_critical (tasks (before_select t s) ! j) \<or> boosted (tasks (before_select t s) ! j) \<longrightarrow>
                      rms_le (tasks (before_select t s) ! i) (tasks (before_select t s) ! j))))
         \<and> (filter (\<lambda>j. is_critical (tasks (before_select t s) ! j) \<or> boosted (tasks (before_select t s) ! j))
               (candidates (before_select t s)) = []
             \<and> candidates (before_select t s) \<noteq> [] \<longrightarrow>
               (\<exists>i. snd (chooseNextWithBoost (scheduler prm) (before_select t s)) = Some i
                    \<and> i \<in> set (candidates (before_select t s))
                    \<and> (\<forall>j \<in> set (candidates (before_select t s)).
                          edf_le (tasks (before_select t s) ! i) (tasks (before_select t s) ! j))))
         \<and> (candidates (before_select t s) = [] \<longrightarrow>
               snd (chooseNextWithBoost (scheduler prm) (before_select t s)) = None)
         \<and> set (candidates (before_select t s))
               = {j \<in> set (ready (before_select t s)).
                    js_gt (remaining (tasks (before_select t s) ! j)) (Fin 0)
                    \<and> \<not> completed (tasks (before_select t s) ! j)}"
proof -
  let ?b = "before_select t s"
  let ?C = "candidates ?b"
  let ?K = "filter (\<lambda>j. is_critical (tasks ?b ! j) \<or> boosted (tasks ?b ! j)) ?C"
  let ?ts = "tasks (mark_effective ?C ?b)"
  let ?nxt = "snd (chooseNextWithBoost (scheduler prm) ?b)"
  have wb: "wf_state ?b" by (rule before_select_wf [OF assms(1)])
  have crit: "filter (\<lambda>i. effectiveCritical (?ts ! i)) ?C = ?K"
    by (rule critical_ready_eq [OF wb])
  have hyb: "?C \<noteq> [] \<Longrightarrow>
      ?nxt = (if ?K \<noteq> [] then pick (cmp_key period) ?ts ?K else pick (cmp_key abs_deadline) ?ts ?C)"
    using chooseNextWithBoost_hybrid [OF assms(2), of ?b] crit
    by (simp add: cmp_rms_key cmp_edf_key)
  have c1: "?K \<noteq> [] \<longrightarrow>
           (\<exists>i. ?nxt = Some i \<and> i \<in> set ?C
                \<and> (is_critical (tasks ?b ! i) \<or> boosted (tasks ?b ! i))
                \<and> (\<forall>j \<in> set ?C. is_critical (tasks ?b ! j) \<or> boosted (tasks ?b ! j) \<longrightarrow>
                      rms_le (tasks ?b ! i) (tasks ?b ! j)))"
  proof
    assume K: "?K \<noteq> []"
    then have C: "?C \<noteq> []" by auto
    have eq: "?nxt = pick (cmp_key period) ?ts ?K" using hyb [OF C] K by simp
    obtain i where i: "pick (cmp_key period) ?ts ?K = Some i"
      using K by (cases "pick (cmp_key period) ?ts ?K") simp_all
    have nonan: "\<forall>j \<in> set ?K. period (tasks ?b ! j) \<noteq> NaN \<and> arrival (tasks ?b ! j) \<noteq> NaN"
      using assms(3) by simp
    have "i \<in> set ?K \<and> (\<forall>j \<in> set ?K. key_le period (tasks ?b ! i) (tasks ?b ! j))"
      by (rule pick_marked_least [OF wb _ _ nonan i]) (simp_all add: mark_effective_keys)
    then show "\<exists>i. ?nxt = Some i \<and> i \<in> set ?C
                \<and> (is_critical (tasks ?b ! i) \<or> boosted (tasks ?b ! i))
                \<and> (\<forall>j \<in> set ?C. is_critical (tasks ?b ! j) \<or> boosted (tasks ?b ! j) \<longrightarrow>
                      rms_le (tasks ?b ! i) (tasks ?b ! j))"
      using eq i by (auto simp: rms_le_def)
  qed
  have c2: "?K = [] \<and> ?C \<noteq> [] \<longrightarrow>
               (\<exists>i. ?nxt = Some i \<and> i \<in> set ?C
                    \<and> (\<forall>j \<in> set ?C. edf_le (tasks ?b ! i) (tasks ?b ! j)))"
  proof
    assume h: "?K = [] \<and> ?C \<noteq> []"
    then have eq: "?nxt = pick (cmp_key abs_deadline) ?ts ?C" using hyb by simp
    obtain i where i: "pick (cmp_key abs_deadline) ?ts ?C = Some i"
      using h by (cases "pick (cmp_key abs_deadline) ?ts ?C") simp_all
    have nonan: "\<forall>j \<in> set ?C. abs_deadline (tasks ?b ! j) \<noteq> NaN \<and> arrival (tasks ?b ! j) \<noteq> NaN"
      using assms(3) by simp
    have "i \<in> set ?C \<and> (\<forall>j \<in> set ?C. key_le abs_deadline (tasks ?b ! i) (tasks ?b ! j))"
      by (rule pick_marked_least [OF wb _ _ nonan i]) (simp_all add: mark_effective_keys)
    then show "\<exists>i. ?nxt = Some i \<and> i \<in> set ?C
                    \<and> (\<forall>j \<in> set ?C. edf_le (tasks ?b ! i) (tasks ?b ! j))"
      using eq i by (auto simp: edf_le_def)
  qed
  have c3: "?C = [] \<longrightarrow> ?nxt = None"
    by (simp add: chooseNextWithBoost_None)
  have c4: "set ?C
           = {j \<in> set (ready ?b). js_gt (remaining (tasks ?b ! j)) (Fin 0) \<and> \<not> completed (tasks ?b ! j)}"
    by (simp add: candidates_def)
  show ?thesis by (intro conjI c1 c2 c3 c4)
qed

theorem hybrid_selects_critical_first_witness:
  "wf_state (init_state [sample_task ''T1'' 0 30 50 (Num (Fin 50)) True,
                         sample_task ''T2'' 0 20 40 (Num (Fin 40)) True,
                         sample_task ''T3'' 0 25 30 Null False])
   \<and> candidates (before_select 0
        (init_state [sample_task ''T1'' 0 30 50 (Num (Fin 50)) True,
                     sample_task ''T2'' 0 20 40 (Num (Fin 40)) True,
                     sample_task ''T3'' 0 25 30 Null False])) = [0, 1, 2]
   \<and> (\<exists>i. snd (chooseNextWithBoost ''hybrid'' (before_select 0
              (init_state [sample_task ''T1'' 0 30 50 (Num (Fin 50)) True,
                           sample_task ''T2'' 0 20 40 (Num (Fin 40)) True,
                           sample_task ''T3'' 0 25 30 Null False]))) = Some i
          \<and> rms_le
               (tasks (before_select 0
                  (init_state [sample_task ''T1'' 0 30 50 (Num (Fin 50)) True,
                               sample_task ''T2'' 0 20 40 (Num (Fin 40)) True,
                               sample_task ''T3'' 0 25 30 Null False])) ! i)
               (tasks (before_select 0
                  (init_state [sample_task ''T1'' 0 30 50 (Num (Fin 50)) True,
                               sample_task ''T2'' 0 20 40 (Num (Fin 40)) True,
                               sample_task ''T3'' 0 25 30 Null False])) ! 0))"
proof -
  let ?s = "init_state [sample_task ''T1'' 0 30 50 (Num (Fin 50)) True,
                        sample_task ''T2'' 0 20 40 (Num (Fin 40)) True,
                        sample_task ''T3'' 0 25 30 Null False]"
  let ?p = "\<lparr>scheduler = ''hybrid'', totalTime = 5, laxityThreshold = 20\<rparr>"
  let ?b = "before_select 0 ?s"
  have wf: "wf_state ?s" by (rule wf_init)
  have cands: "candidates ?b = [0, 1, 2]" by code_simp
  have nonan: "\<forall>j \<in> set (candidates ?b).
           period (tasks ?b ! j) \<noteq> NaN \<and> abs_deadline (tasks ?b ! j) \<noteq> NaN \<and> arrival (tasks ?b ! j) \<noteq> NaN"
    unfolding cands by code_simp
  have sch: "scheduler ?p = ''hybrid'' \<or> scheduler ?p = ''energy-hybrid''" by simp
  have K: "filter (\<lambda>j. is_critical (tasks ?b ! j) \<or> boosted (tasks ?b ! j)) (candidates ?b) \<noteq> []"
    unfolding cands by code_simp
  have c0: "is_critical (tasks ?b ! 0)" by code_simp
  have "\<exists>i. snd (chooseNextWithBoost (scheduler ?p) ?b) = Some i
                \<and> i \<in> set (candidates ?b)
                \<and> (is_critical (tasks ?b ! i) \<or> boosted (tasks ?b ! i))
                \<and> (\<forall>j \<in> set (candidates ?b).
                      is_critical (tasks ?b ! j) \<or> boosted (tasks ?b ! j) \<longrightarrow>
                      rms_le (tasks ?b ! i) (tasks ?b ! j))"
    using hybrid_selects_critical_first [of ?s ?p 0, OF wf sch nonan, THEN conjunct1] K
    by (rule mp)
  then obtain i where i: "snd (chooseNextWithBoost ''hybrid'' ?b) = Some i"
    and le: "\<forall>j \<in> set (candidates ?b).
                      is_critical (tasks ?b ! j) \<or> boosted (tasks ?b ! j) \<longrightarrow>
                      rms_le (tasks ?b ! i) (tasks ?b ! j)"
    by auto
  have "rms_le (tasks ?b ! i) (tasks ?b ! 0)"
    using le c0 by (simp add: cands)
  then show ?thesis using wf cands i by simp
qed

text \<open>
  Without the proviso the claim fails. Both tasks are critical; the descriptor of \<^verbatim>\<open>a\<close>
  has the object \<^verbatim>\<open>{}\<close> as its period, which normalization turns into \<^verbatim>\<open>NaN\<close>, and \<^verbatim>\<open>b\<close>
  has period 40. In tick 0 both are candidates. The comparator's difference of the periods
  is \<^verbatim>\<open>NaN\<close>, which is falsy, so the pair is ordered by arrival and identifier, and \<^verbatim>\<open>a\<close>
  is selected although its period is not the smallest.
\<close>

theorem hybrid_nan_period_counterexample:
  "candidates (before_select 0
       (init_state [sample_task ''a'' 0 5 50 Obj True,
                    sample_task ''b'' 0 5 50 (Num (Fin 40)) True])) = [0, 1]
   \<and> is_critical (tasks (before_select 0
       (init_state [sample_task ''a'' 0 5 50 Obj True,
                    sample_task ''b'' 0 5 50 (Num (Fin 40)) True])) ! 0)
   \<and> is_critical (tasks (before_select 0
       (init_state [sample_task ''a'' 0 5 50 Obj True,
                    sample_task ''b'' 0 5 50 (Num (Fin 40)) True])) ! 1)
   \<and> snd (chooseNextWithBoost ''hybrid'' (before_select 0
       (init_state [sample_task ''a'' 0 5 50 Obj True,
                    sample_task ''b'' 0 5 50 (Num (Fin 40)) True]))) = Some 0
   \<and> period (tasks (before_select 0
       (init_state [sample_task ''a'' 0 5 50 Obj True,
                    sample_task ''b'' 0 5 50 (Num (Fin 40)) True])) ! 0) = NaN
   \<and> period (tasks (before_select 0
       (init_state [sample_task ''a'' 0 5 50 Obj True,
                    sample_task ''b'' 0 5 50 (Num (Fin 40)) True])) ! 1) = Fin 40
   \<and> \<not> rms_le
       (tasks (before_select 0
          (init_state [sample_task ''a'' 0 5 50 Obj True,
                       sample_task ''b'' 0 5 50 (Num (Fin 40)) True])) ! 0)
       (tasks (before_select 0
          (init_state [sample_task ''a'' 0 5 50 Obj True,
                       sample_task ''b'' 0 5 50 (Num (Fin 40)) True])) ! 1)"
  by code_simp

section \<open>Tasks that are not selected\<close>

lemma progress_simps [simp]:
  "progress (x\<lparr>admitted := a\<rparr>) = progress x"
  "progress (x\<lparr>boosted := b\<rparr>) = progress x"
  "progress (x\<lparr>effectiveCritical := c\<rparr>) = progress x"
  "progress (x\<lparr>wait_time := w\<rparr>) = progress x"
  by (simp_all add: progress_def)

lemma dispatch_other:
  assumes "j \<noteq> i" and "i < length (tasks s)"
  shows "tasks (dispatch t i s) ! j = tasks s ! j"
proof (cases "blocked s i")
  case b: True
  show ?thesis using assms(1) by (simp add: dispatch_blocked(2) [OF b])
next
  case b: False
  show ?thesis using assms(1) by (simp add: dispatch_unblocked(2) [OF b assms(2)])
qed

lemma after_select_other:
  assumes "\<And>x n. g (x\<lparr>wait_time := n\<rparr>) = g x"
    and "nxt \<noteq> Some j" and "j < length (tasks s)"
    and "\<And>i. nxt = Some i \<Longrightarrow> i < length (tasks s)"
  shows "g (tasks (after_select prm t s nxt) ! j) = g (tasks s ! j)"
proof -
  let ?s5 = "s\<lparr>cpuState := dvfs prm t s nxt, totalEnergy := totalEnergy s + power (dvfs prm t s nxt)\<rparr>"
  have step: "g (tasks (update_waits d) ! j) = g (tasks d ! j)" if "j < length (tasks d)" for d
    by (rule map_eq_nthD [OF update_waits_map that]) (rule assms(1))
  show ?thesis
  proof (cases nxt)
    case None
    then have "after_select prm t s nxt = update_waits (logPush (EvIdle t) ?s5)"
      by (simp add: after_select_def Let_def)
    then show ?thesis using step [of "logPush (EvIdle t) ?s5"] assms(3) by simp
  next
    case (Some i)
    then have eq: "after_select prm t s nxt = update_waits (dispatch t i ?s5)"
      by (simp add: after_select_def Let_def)
    have ij: "j \<noteq> i" using Some assms(2) by simp
    have lt: "i < length (tasks ?s5)" using assms(4) [OF Some] by simp
    have "tasks (dispatch t i ?s5) ! j = tasks ?s5 ! j" by (rule dispatch_other [OF ij lt])
    then show ?thesis using step [of "dispatch t i ?s5"] assms(3) eq by simp
  qed
qed

lemma tick_other:
  assumes g: "\<And>x. g (x\<lparr>admitted := True\<rparr>) = g x" "\<And>x b. g (x\<lparr>boosted := b\<rparr>) = g x"
      "\<And>x b. g (x\<lparr>effectiveCritical := b\<rparr>) = g x" "\<And>x n. g (x\<lparr>wait_time := n\<rparr>) = g x"
    and "wf_state s"
    and "snd (chooseNextWithBoost (scheduler prm) (before_select t s)) \<noteq> Some j"
    and "j < length (tasks s)"
  shows "g (tasks (tick prm t s) ! j) = g (tasks s ! j)"
proof -
  let ?c = "chooseNextWithBoost (scheduler prm) (before_select t s)"
  have "g (tasks (tick prm t s) ! j) = g (tasks (fst ?c) ! j)"
    unfolding tick_eq
  proof (rule after_select_other [OF g(4) assms(6)])
    show "j < length (tasks (fst ?c))" by (simp add: assms(7))
    show "\<And>i. snd ?c = Some i \<Longrightarrow> i < length (tasks (fst ?c))"
      using selected_lt [OF assms(5)] by simp
  qed
  also have "\<dots> = g (tasks s ! j)"
    by (rule selection_state_nth [OF g(1,2,3) assms(7)])
  finally show ?thesis .
qed

lemma candidate_fields:
  assumes "wf_state s" and "j \<in> set (candidates (before_select t s))"
  shows "js_gt (remaining (tasks s ! j)) (Fin 0)" and "\<not> completed (tasks s ! j)"
    and "j < length (tasks s)"
proof -
  let ?b = "before_select t s"
  have lt: "j < length (tasks s)"
    using candidates_lt [OF before_select_wf [OF assms(1)] assms(2)] by simp
  have "remaining (tasks ?b ! j) = remaining (tasks s ! j)"
    by (rule map_eq_nthD [OF before_select_map lt]) simp_all
  moreover have "completed (tasks ?b ! j) = completed (tasks s ! j)"
    by (rule map_eq_nthD [OF before_select_map lt]) simp_all
  ultimately show "js_gt (remaining (tasks s ! j)) (Fin 0)" and "\<not> completed (tasks s ! j)"
    using assms(2) by (simp_all add: candidates_def)
  show "j < length (tasks s)" by (rule lt)
qed

lemma not_candidate:
  assumes "wf_state s" and "\<not> js_gt (remaining (tasks s ! j)) (Fin 0) \<or> completed (tasks s ! j)"
  shows "j \<notin> set (candidates (before_select t s))"
    and "snd (chooseNextWithBoost sched (before_select t s)) \<noteq> Some j"
proof -
  show a: "j \<notin> set (candidates (before_select t s))"
    using candidate_fields(1,2) [OF assms(1), of j t] assms(2) by blast
  show "snd (chooseNextWithBoost sched (before_select t s)) \<noteq> Some j"
    using a chooseNextWithBoost_in_candidates by blast
qed

lemma not_all_done:
  assumes "j < length (tasks s)" and "\<not> completed (tasks s ! j)"
  shows "\<not> all_done s"
proof
  assume d: "all_done s"
  have mem: "tasks s ! j \<in> set (tasks s)" using assms(1) by simp
  from d have a: "\<forall>x \<in> set (tasks s). completed x \<or> \<not> admitted x"
    and b: "\<forall>x \<in> set (tasks s). admitted x"
    by (auto simp: all_done_def filter_empty_conv)
  from a b mem have "completed (tasks s ! j)" by blast
  then show False using assms(2) by simp
qed

section \<open>Tasks without work\<close>

lemma state_at_wf: "wf_state s0 \<Longrightarrow> wf_state (state_at prm s0 n)"
  by (induction n) (simp_all add: tick_wf)

lemma state_at_length [simp]: "length (tasks (state_at prm s0 n)) = length (tasks s0)"
  by (induction n) simp_all

lemma state_at_timeline: "length (timeline (state_at prm s0 n)) = length (timeline s0) + n"
  by (induction n) simp_all

lemma tick_zero:
  assumes "wf_state s" and "j < length (tasks s)" and "remaining (tasks s ! j) = Fin 0"
  shows "progress (tasks (tick prm t s) ! j) = progress (tasks s ! j)"
proof (rule tick_other [OF _ _ _ _ assms(1) _ assms(2)])
  show "snd (chooseNextWithBoost (scheduler prm) (before_select t s)) \<noteq> Some j"
    by (rule not_candidate(2) [OF assms(1)]) (simp add: assms(3) js_gt_def)
qed simp_all

lemma state_at_zero:
  assumes "wf_state s0" and "j < length (tasks s0)" and "remaining (tasks s0 ! j) = Fin 0"
  shows "progress (tasks (state_at prm s0 n) ! j) = progress (tasks s0 ! j)"
proof (induction n)
  case 0
  show ?case by simp
next
  case (Suc n)
  have r: "remaining (tasks (state_at prm s0 n) ! j) = Fin 0"
    using Suc.IH assms(3) by (simp add: progress_def)
  have "progress (tasks (tick prm n (state_at prm s0 n)) ! j) = progress (tasks (state_at prm s0 n) ! j)"
    by (rule tick_zero [OF state_at_wf [OF assms(1)] _ r]) (simp add: assms(2))
  then show ?case using Suc.IH by simp
qed

lemma loop_runs_through:
  assumes "\<forall>n. \<not> all_done (tick prm n (state_at prm s0 n))"
  shows "nat (totalTime prm + 1 - int t) = k \<Longrightarrow>
         loop prm t (state_at prm s0 t) = state_at prm s0 (t + k)"
proof (induction k arbitrary: t)
  case 0
  then have "\<not> int t \<le> totalTime prm" by simp
  then show ?case by (simp add: loop_end)
next
  case (Suc k)
  then have le: "int t \<le> totalTime prm" by simp
  have nb: "\<not> all_done (tick prm t (state_at prm s0 t))" using assms by simp
  have "loop prm t (state_at prm s0 t) = loop prm (Suc t) (state_at prm s0 (Suc t))"
    using loop_step [OF le nb] by simp
  also have "\<dots> = state_at prm s0 (Suc t + k)"
    by (rule Suc.IH) (use Suc.prems in simp)
  finally show ?case by simp
qed

text \<open>
  C10. A task whose normalized execution time is 0 starts with no remaining work. In
  every tick of the run it is outside the candidate set and is not selected, and since it
  is never completed the test for early termination fails after every tick: the loop stays
  until the horizon, and the result is the state after ticks 0 to \<^verbatim>\<open>totalTime\<close>, with
  one snapshot for each. In the result the task is not completed, has no run segment and no
  work consumed, and is in the list of deadline misses.
\<close>

theorem zero_execution_task:
  assumes "j < length raws" and "exec (normalize raws ! j) = Fin 0"
  shows "(\<forall>n. j \<notin> set (candidates (before_select n
                    (state_at \<lparr>scheduler = sched, totalTime = T, laxityThreshold = L\<rparr> (init_state raws) n)))
              \<and> snd (chooseNextWithBoost sched (before_select n
                    (state_at \<lparr>scheduler = sched, totalTime = T, laxityThreshold = L\<rparr> (init_state raws) n)))
                  \<noteq> Some j
              \<and> \<not> all_done (tick \<lparr>scheduler = sched, totalTime = T, laxityThreshold = L\<rparr> n
                    (state_at \<lparr>scheduler = sched, totalTime = T, laxityThreshold = L\<rparr> (init_state raws) n)))
         \<and> res_tasks (runSimulation raws sched T L)
             = tasks (state_at \<lparr>scheduler = sched, totalTime = T, laxityThreshold = L\<rparr> (init_state raws)
                        (nat (T + 1)))
         \<and> length (res_timeline (runSimulation raws sched T L)) = nat (T + 1)
         \<and> \<not> completed (res_tasks (runSimulation raws sched T L) ! j)
         \<and> remaining (res_tasks (runSimulation raws sched T L) ! j) = Fin 0
         \<and> history (res_tasks (runSimulation raws sched T L) ! j) = []
         \<and> res_tasks (runSimulation raws sched T L) ! j \<in> set (deadlineMisses (runSimulation raws sched T L))"
proof -
  let ?prm = "\<lparr>scheduler = sched, totalTime = T, laxityThreshold = L\<rparr>"
  let ?s0 = "init_state raws"
  let ?st = "state_at ?prm ?s0"
  let ?r = "runSimulation raws sched T L"
  have wf0: "wf_state ?s0" by (rule wf_init)
  have len0: "j < length (tasks ?s0)" using assms(1) by (simp add: init_state_def normalize_def)
  have t0: "tasks ?s0 ! j = normalize_task (raws ! j)"
    using assms(1) by (simp add: init_state_def normalize_def)
  have ex0: "exec (normalize_task (raws ! j)) = Fin 0"
    using assms by (simp add: normalize_def)
  have p0: "progress (tasks ?s0 ! j) = (Fin 0, False, None, [], False, None)"
    using ex0 unfolding t0 by (simp add: progress_def normalize_task_def Let_def)
  have rem0: "remaining (tasks ?s0 ! j) = Fin 0" using p0 by (simp add: progress_def)
  have pn: "progress (tasks (?st n) ! j) = (Fin 0, False, None, [], False, None)" for n
    using state_at_zero [OF wf0 len0 rem0, of ?prm n] p0 by simp
  have wfn: "wf_state (?st n)" for n by (rule state_at_wf [OF wf0])
  have remn: "remaining (tasks (?st n) ! j) = Fin 0" for n
    using pn [of n] by (simp add: progress_def)
  have nocand: "j \<notin> set (candidates (before_select n (?st n)))" for n
    by (rule not_candidate(1) [OF wfn]) (simp add: remn js_gt_def)
  have nosel: "snd (chooseNextWithBoost sched (before_select n (?st n))) \<noteq> Some j" for n
    by (rule not_candidate(2) [OF wfn]) (simp add: remn js_gt_def)
  have nodone: "\<not> all_done (tick ?prm n (?st n))" for n
  proof (rule not_all_done [of j])
    show "j < length (tasks (tick ?prm n (?st n)))" using len0 by simp
    have "progress (tasks (tick ?prm n (?st n)) ! j) = progress (tasks (?st n) ! j)"
      by (rule tick_zero [OF wfn _ remn]) (use len0 in simp)
    then show "\<not> completed (tasks (tick ?prm n (?st n)) ! j)"
      using pn [of n] by (simp add: progress_def)
  qed
  have c1: "\<forall>n. j \<notin> set (candidates (before_select n (?st n)))
              \<and> snd (chooseNextWithBoost sched (before_select n (?st n))) \<noteq> Some j
              \<and> \<not> all_done (tick ?prm n (?st n))"
    using nocand nosel nodone by blast
  have run: "loop ?prm 0 ?s0 = ?st (nat (T + 1))"
    using loop_runs_through [of ?prm ?s0 0 "nat (T + 1)"] nodone by simp
  have c2: "res_tasks ?r = tasks (?st (nat (T + 1)))"
    by (simp add: runSimulation_def metrics_def Let_def run)
  have tl0: "timeline ?s0 = []" by (simp add: init_state_def)
  have "res_timeline ?r = timeline (?st (nat (T + 1)))"
    by (simp add: runSimulation_def metrics_def Let_def run)
  then have c3: "length (res_timeline ?r) = nat (T + 1)"
    by (simp add: state_at_timeline tl0)
  have pr: "progress (res_tasks ?r ! j) = (Fin 0, False, None, [], False, None)"
    unfolding c2 by (rule pn)
  have c4: "\<not> completed (res_tasks ?r ! j)" using pr by (simp add: progress_def)
  have c5: "remaining (res_tasks ?r ! j) = Fin 0" using pr by (simp add: progress_def)
  have c6: "history (res_tasks ?r ! j) = []" using pr by (simp add: progress_def)
  have lenr: "j < length (res_tasks ?r)" using assms(1) by (simp add: runSimulation_tasks_length)
  have dm: "deadlineMisses ?r = filter missed (res_tasks ?r)"
    by (simp add: runSimulation_def metrics_def Let_def)
  have c7: "res_tasks ?r ! j \<in> set (deadlineMisses ?r)"
    unfolding dm using lenr c4 by (simp add: missed_def)
  show ?thesis by (intro conjI c1 c2 c3 c4 c5 c6 c7)
qed

theorem zero_execution_task_witness:
  "(0::nat) < length [raw_default\<lparr>r_id := ''T1''\<rparr>]
   \<and> exec (normalize [raw_default\<lparr>r_id := ''T1''\<rparr>] ! 0) = Fin 0
   \<and> length (res_timeline (runSimulation [raw_default\<lparr>r_id := ''T1''\<rparr>] ''edf'' 1 20)) = 2
   \<and> \<not> completed (res_tasks (runSimulation [raw_default\<lparr>r_id := ''T1''\<rparr>] ''edf'' 1 20) ! 0)
   \<and> res_tasks (runSimulation [raw_default\<lparr>r_id := ''T1''\<rparr>] ''edf'' 1 20) ! 0
       \<in> set (deadlineMisses (runSimulation [raw_default\<lparr>r_id := ''T1''\<rparr>] ''edf'' 1 20))"
proof -
  let ?raws = "[raw_default\<lparr>r_id := ''T1''\<rparr>]"
  have h1: "(0::nat) < length ?raws" by simp
  have h2: "exec (normalize ?raws ! 0) = Fin 0"
    by (simp add: normalize_def normalize_task_def raw_default_def Let_def val_or_def)
  note T = zero_execution_task [OF h1 h2, of "''edf''" 1 20]
  note T2 = T [THEN conjunct2, THEN conjunct2]
  have a: "length (res_timeline (runSimulation ?raws ''edf'' 1 20)) = 2"
    using T2 [THEN conjunct1] by simp
  have b: "\<not> completed (res_tasks (runSimulation ?raws ''edf'' 1 20) ! 0)"
    by (rule T2 [THEN conjunct2, THEN conjunct1])
  have c: "res_tasks (runSimulation ?raws ''edf'' 1 20) ! 0
       \<in> set (deadlineMisses (runSimulation ?raws ''edf'' 1 20))"
    by (rule T2 [THEN conjunct2, THEN conjunct2, THEN conjunct2, THEN conjunct2])
  show ?thesis by (intro conjI h1 h2 a b c)
qed

section \<open>A selected task that is blocked\<close>

lemma dispatch_blocked_log:
  assumes "blocked s i" and "needs_resource (tasks s ! i) = Some r"
  shows "log_ev (dispatch t i s) = log_ev s @ [EvBlocked t (tid (tasks s ! i)) r]"
  using assms
  by (simp add: dispatch_def Let_def acquire_running)
     (simp add: record_held_def acquire_def blocked_def split: option.splits)

text \<open>
  C2. When the task selected in a tick needs a resource that the resource table records
  for another identifier, the tick is idle: nothing is running after it, the busy counter
  and the resource table are unchanged, no task's remaining work, completion or history
  changes, the only log entry after those of admission and boosting is the block, and the
  snapshot of the tick records no running task. The blocked task's waiting time grows by
  2: once for the block and once as a ready task that did not run.
\<close>

theorem blocked_selection_idles:
  assumes "wf_state s"
    and "snd (chooseNextWithBoost (scheduler prm) (before_select t s)) = Some i"
    and "needs_resource (tasks s ! i) = Some r" and "r \<noteq> []"
    and "resources s r = Some ow" and "ow \<noteq> []" and "ow \<noteq> tid (tasks s ! i)"
  shows "running (tick prm t s) = None
         \<and> cpuBusyTime (tick prm t s) = cpuBusyTime s
         \<and> resources (tick prm t s) = resources s
         \<and> map progress (tasks (tick prm t s)) = map progress (tasks s)
         \<and> wait_time (tasks (tick prm t s) ! i) = wait_time (tasks s ! i) + 2
         \<and> log_ev (tick prm t s) = log_ev (before_select t s) @ [EvBlocked t (tid (tasks s ! i)) r]
         \<and> snap_running (last (timeline (push_snapshot t (tick prm t s)))) = None"
proof -
  let ?b = "before_select t s"
  let ?c = "chooseNextWithBoost (scheduler prm) ?b"
  define s4 where "s4 = fst ?c"
  define s5 where "s5 = s4\<lparr>cpuState := dvfs prm t s4 (Some i),
                              totalEnergy := totalEnergy s4 + power (dvfs prm t s4 (Some i))\<rparr>"
  define d where "d = dispatch t i s5"
  have lt: "i < length (tasks s)" by (rule selected_lt [OF assms(1,2)])
  have wf4: "wf_state s4"
    unfolding s4_def by (rule chooseNextWithBoost_wf [OF before_select_wf [OF assms(1)]])
  have need4: "needs_resource (tasks s4 ! i) = needs_resource (tasks s ! i)"
    unfolding s4_def by (rule selection_state_nth [OF _ _ _ lt]) simp_all
  have tid4: "tid (tasks s4 ! i) = tid (tasks s ! i)"
    unfolding s4_def by (rule selection_state_nth [OF _ _ _ lt]) simp_all
  have wait4: "wait_time (tasks s4 ! i) = wait_time (tasks s ! i)"
    unfolding s4_def by (rule selection_state_nth [OF _ _ _ lt]) simp_all
  have comp4: "completed (tasks s4 ! i) = completed (tasks s ! i)"
    unfolding s4_def by (rule selection_state_nth [OF _ _ _ lt]) simp_all
  have prog4: "map progress (tasks s4) = map progress (tasks s)"
    unfolding s4_def by (rule selection_state_map) simp_all
  have f4: "resources s4 = resources s" "cpuBusyTime s4 = cpuBusyTime s" "log_ev s4 = log_ev ?b"
    "ready s4 = ready ?b" "length (tasks s4) = length (tasks s)"
    by (simp_all add: s4_def)
  have f5: "tasks s5 = tasks s4" "resources s5 = resources s4" "cpuBusyTime s5 = cpuBusyTime s4"
    "log_ev s5 = log_ev s4" "ready s5 = ready s4"
    by (simp_all add: s5_def)
  have b5: "blocked s5 i"
    using assms(3-7) need4 tid4 by (simp add: blocked_def f4 f5)
  have need5: "needs_resource (tasks s5 ! i) = Some r" using need4 assms(3) by (simp add: f5)
  have tick_d: "tick prm t s = update_waits d"
    using assms(2) by (simp add: tick_eq after_select_def Let_def d_def s5_def s4_def)
  have run_d: "running d = None" unfolding d_def by (rule dispatch_blocked(1) [OF b5])
  have tasks_d: "tasks d = (tasks s4)[i := (tasks s4 ! i)\<lparr>wait_time := wait_time (tasks s4 ! i) + 1\<rparr>]"
    using dispatch_blocked(2) [OF b5, of t] by (simp add: d_def f5)
  have fd: "cpuBusyTime d = cpuBusyTime s" "resources d = resources s" "ready d = ready ?b"
    using dispatch_blocked(3,4) [OF b5, of t] by (simp_all add: d_def f4 f5)
  have c1: "running (tick prm t s) = None" by (simp add: tick_d run_d)
  have c2: "cpuBusyTime (tick prm t s) = cpuBusyTime s" by (simp add: tick_d fd)
  have c3: "resources (tick prm t s) = resources s" by (simp add: tick_d fd)
  have "map progress (tasks d) = map progress (tasks s4)"
    unfolding tasks_d by (rule map_upd_same) simp
  then have c4: "map progress (tasks (tick prm t s)) = map progress (tasks s)"
    by (simp add: tick_d update_waits_map prog4)
  have in_ready: "i \<in> set (ready d)"
    using selected_in_ready [OF assms(2)] by (simp add: fd)
  have dist: "distinct (ready d)" using wf4 by (simp add: wf_state_iff fd f4)
  have ltd: "i < length (tasks d)" using lt by (simp add: tasks_d f4)
  have ncomp: "\<not> completed (tasks d ! i)"
  proof -
    have "i \<in> set (candidates ?b)" by (rule chooseNextWithBoost_in_candidates [OF assms(2)])
    then have "\<not> completed (tasks s ! i)" by (rule candidate_fields(2) [OF assms(1)])
    then show ?thesis using lt comp4 by (simp add: tasks_d f4)
  qed
  have "tasks (update_waits d) ! i = (tasks d ! i)\<lparr>wait_time := wait_time (tasks d ! i) + 1\<rparr>"
    using update_waits_nth [OF dist ltd] in_ready ncomp run_d by simp
  then have c5: "wait_time (tasks (tick prm t s) ! i) = wait_time (tasks s ! i) + 2"
    using lt wait4 by (simp add: tick_d tasks_d f4)
  have "log_ev d = log_ev s5 @ [EvBlocked t (tid (tasks s5 ! i)) r]"
    unfolding d_def by (rule dispatch_blocked_log [OF b5 need5])
  then have c6: "log_ev (tick prm t s) = log_ev ?b @ [EvBlocked t (tid (tasks s ! i)) r]"
    using tid4 by (simp add: tick_d f4 f5)
  have c7: "snap_running (last (timeline (push_snapshot t (tick prm t s)))) = None"
    by (simp add: push_snapshot_def c1)
  show ?thesis by (intro conjI c1 c2 c3 c4 c5 c6 c7)
qed


theorem blocked_selection_idles_witness:
  "wf_state (state_at \<lparr>scheduler = ''edf'', totalTime = 10, laxityThreshold = 20\<rparr>
       (init_state [(sample_task ''T5'' 0 3 40 Null False)\<lparr>r_holds_resource := Some ''R1''\<rparr>,
                    (sample_task ''T6'' 1 2 25 Null True)\<lparr>r_needs_resource := Some ''R1''\<rparr>]) 1)
   \<and> snd (chooseNextWithBoost ''edf'' (before_select 1
        (state_at \<lparr>scheduler = ''edf'', totalTime = 10, laxityThreshold = 20\<rparr>
          (init_state [(sample_task ''T5'' 0 3 40 Null False)\<lparr>r_holds_resource := Some ''R1''\<rparr>,
                       (sample_task ''T6'' 1 2 25 Null True)\<lparr>r_needs_resource := Some ''R1''\<rparr>]) 1))) = Some 1
   \<and> resources (state_at \<lparr>scheduler = ''edf'', totalTime = 10, laxityThreshold = 20\<rparr>
          (init_state [(sample_task ''T5'' 0 3 40 Null False)\<lparr>r_holds_resource := Some ''R1''\<rparr>,
                       (sample_task ''T6'' 1 2 25 Null True)\<lparr>r_needs_resource := Some ''R1''\<rparr>]) 1) ''R1''
       = Some ''T5''
   \<and> running (tick \<lparr>scheduler = ''edf'', totalTime = 10, laxityThreshold = 20\<rparr> 1
        (state_at \<lparr>scheduler = ''edf'', totalTime = 10, laxityThreshold = 20\<rparr>
          (init_state [(sample_task ''T5'' 0 3 40 Null False)\<lparr>r_holds_resource := Some ''R1''\<rparr>,
                       (sample_task ''T6'' 1 2 25 Null True)\<lparr>r_needs_resource := Some ''R1''\<rparr>]) 1)) = None
   \<and> wait_time (tasks (tick \<lparr>scheduler = ''edf'', totalTime = 10, laxityThreshold = 20\<rparr> 1
        (state_at \<lparr>scheduler = ''edf'', totalTime = 10, laxityThreshold = 20\<rparr>
          (init_state [(sample_task ''T5'' 0 3 40 Null False)\<lparr>r_holds_resource := Some ''R1''\<rparr>,
                       (sample_task ''T6'' 1 2 25 Null True)\<lparr>r_needs_resource := Some ''R1''\<rparr>]) 1)) ! 1) = 2"
proof -
  let ?p = "\<lparr>scheduler = ''edf'', totalTime = 10, laxityThreshold = 20\<rparr>"
  let ?s = "state_at ?p
          (init_state [(sample_task ''T5'' 0 3 40 Null False)\<lparr>r_holds_resource := Some ''R1''\<rparr>,
                       (sample_task ''T6'' 1 2 25 Null True)\<lparr>r_needs_resource := Some ''R1''\<rparr>]) 1"
  have wf: "wf_state ?s" by (rule state_at_wf [OF wf_init])
  have sel: "snd (chooseNextWithBoost (scheduler ?p) (before_select 1 ?s)) = Some 1" by code_simp
  have need: "needs_resource (tasks ?s ! 1) = Some ''R1''" by code_simp
  have ne: "''R1'' \<noteq> []" "''T5'' \<noteq> []" by simp_all
  have own: "resources ?s ''R1'' = Some ''T5''" by code_simp
  have other: "''T5'' \<noteq> tid (tasks ?s ! 1)" by code_simp
  have w0: "wait_time (tasks ?s ! 1) = 0" by code_simp
  note T = blocked_selection_idles [OF wf sel need ne(1) own ne(2) other]
  have a: "running (tick ?p 1 ?s) = None" by (rule T [THEN conjunct1])
  have b: "wait_time (tasks (tick ?p 1 ?s) ! 1) = 2"
    using T [THEN conjunct2, THEN conjunct2, THEN conjunct2, THEN conjunct2, THEN conjunct1] w0 by simp
  have sel': "snd (chooseNextWithBoost ''edf'' (before_select 1 ?s)) = Some 1" using sel by simp
  show ?thesis by (intro conjI wf sel' own a b)
qed

section \<open>Completion\<close>

lemma nth_list_update_any:
  "xs[i := y] ! j = (if j = i \<and> i < length xs then y else xs ! j)"
proof (cases "i < length xs")
  case True
  then show ?thesis by (simp add: nth_list_update)
next
  case False
  then have "length xs \<le> i" by simp
  then show ?thesis by (simp add: list_update_beyond)
qed

lemma fold_admit_one_count:
  "admitted (tasks s ! j) \<Longrightarrow> j < length (tasks s) \<Longrightarrow>
   count_list (ready (fold (admit_one t) is s)) j = count_list (ready s) j"
proof (induction "is" arbitrary: s)
  case Nil
  show ?case by simp
next
  case (Cons a "is")
  have adm: "admitted (tasks (admit_one t a s) ! j)"
    using Cons.prems by (simp add: admit_one_tasks nth_list_update_any)
  have len: "j < length (tasks (admit_one t a s))" using Cons.prems(2) by simp
  have "count_list (ready (admit_one t a s)) j = count_list (ready s) j"
    using Cons.prems(1) by (auto simp: admit_one_ready)
  then show ?case using Cons.IH [OF adm len] by simp
qed

lemma admitArrivals_count:
  "admitted (tasks s ! j) \<Longrightarrow> j < length (tasks s) \<Longrightarrow>
   count_list (ready (admitArrivals t s)) j = count_list (ready s) j"
  by (simp add: admitArrivals_def fold_admit_one_count)

lemma complete_task_released:
  assumes "i < length (tasks s)" and "r \<noteq> []"
    and "holds_resource (tasks s ! i) = Some r \<or> needs_resource (tasks s ! i) = Some r"
  shows "resources (complete_task t i s) r \<noteq> Some (tid (tasks s ! i))"
proof -
  let ?u = "logPush (EvCompleted (t + 1) (tid (tasks s ! i)) (abs_deadline (tasks s ! i)))
              (upd_task i (\<lambda>x. x\<lparr>completed := True, completion_time := Some (t + 1)\<rparr>) s)"
  let ?h = "release_held t i ?u"
  have u: "tid (tasks ?u ! i) = tid (tasks s ! i)"
    "holds_resource (tasks ?u ! i) = holds_resource (tasks s ! i)"
    "needs_resource (tasks ?u ! i) = needs_resource (tasks s ! i)"
    "resources ?u = resources s"
    using assms(1) by (simp_all add: upd_task_nth)
  have held: "holds_resource (tasks s ! i) = Some r \<Longrightarrow> resources ?h r \<noteq> Some (tid (tasks s ! i))"
    using assms(2) u by (simp add: release_held_def)
  have keep: "resources ?h r \<noteq> Some (tid (tasks s ! i)) \<Longrightarrow>
              resources (release_needed i ?h) r \<noteq> Some (tid (tasks s ! i))"
    by (simp add: release_needed_def split: option.splits)
  have needed: "needs_resource (tasks s ! i) = Some r \<Longrightarrow>
              resources (release_needed i ?h) r \<noteq> Some (tid (tasks s ! i))"
    using assms(2) u by (simp add: release_needed_def)
  show ?thesis
    using assms(3) held keep needed by (auto simp: complete_task_def)
qed

lemma run_task_released:
  assumes "i < length (tasks s)" and "r \<noteq> []"
    and "holds_resource (tasks s ! i) = Some r \<or> needs_resource (tasks s ! i) = Some r"
    and "js_le (js_sub (remaining (tasks s ! i)) (Fin (speed (cpuState s)))) (Fin (1 / 10000))"
  shows "resources (run_task t i s) r \<noteq> Some (tid (tasks s ! i))"
proof -
  define s5 where "s5 = logPush (EvRunning t (tid (tasks s ! i)) (cpuState s)
                           (js_sub (remaining (tasks s ! i)) (Fin (speed (cpuState s)))))
      (s\<lparr>tasks := (tasks s)[i := (tasks s ! i)\<lparr>started := True,
                  start_time := (if started (tasks s ! i) then start_time (tasks s ! i) else Some t),
                  history := extend_history t (history (tasks s ! i)),
                  remaining := js_sub (remaining (tasks s ! i)) (Fin (speed (cpuState s)))\<rparr>],
         cpuBusyTime := cpuBusyTime s + 1\<rparr>)"
  have x1: "(if \<not> started (tasks s ! i) then (tasks s ! i)\<lparr>started := True, start_time := Some t\<rparr> else tasks s ! i)
              = (tasks s ! i)\<lparr>started := True,
                   start_time := (if started (tasks s ! i) then start_time (tasks s ! i) else Some t)\<rparr>"
    by simp
  have run: "run_task t i s = complete_task t i s5"
    using assms(1,4) by (simp add: run_task_def Let_def upd_task_def logPush_def x1 s5_def)
  have f: "i < length (tasks s5)" "tid (tasks s5 ! i) = tid (tasks s ! i)"
    "holds_resource (tasks s5 ! i) = holds_resource (tasks s ! i)"
    "needs_resource (tasks s5 ! i) = needs_resource (tasks s ! i)"
    using assms(1) by (simp_all add: s5_def logPush_def)
  show ?thesis
    using complete_task_released [OF f(1) assms(2), of t] assms(3) unfolding run f(2,3,4) by simp
qed

lemma acquire_unblocked_tasks: "\<not> blocked s i \<Longrightarrow> tasks (acquire t i s) = tasks s"
  by (simp add: acquire_tasks)

lemma dispatch_released:
  assumes "\<not> blocked s i" and "i < length (tasks s)" and "r \<noteq> []"
    and "holds_resource (tasks s ! i) = Some r \<or> needs_resource (tasks s ! i) = Some r"
    and "js_le (js_sub (remaining (tasks s ! i)) (Fin (speed (cpuState s)))) (Fin (1 / 10000))"
  shows "resources (dispatch t i s) r \<noteq> Some (tid (tasks s ! i))"
proof -
  define s2 where "s2 = record_held i (acquire t i (s\<lparr>running := Some i\<rparr>))"
  have nb: "\<not> blocked (s\<lparr>running := Some i\<rparr>) i" using assms(1) by simp
  have f: "tasks s2 = tasks s" "cpuState s2 = cpuState s" "running s2 = Some i"
    using nb by (simp_all add: s2_def acquire_tasks acquire_running)
  have d: "dispatch t i s = run_task t i s2"
    by (simp add: dispatch_def Let_def s2_def [symmetric] f)
  show ?thesis
    unfolding d using run_task_released [of i s2 r t] assms(2-5) by (simp add: f)
qed

lemma blocked_eq:
  assumes "needs_resource (tasks s' ! i) = needs_resource (tasks s ! i)"
    and "tid (tasks s' ! i) = tid (tasks s ! i)" and "resources s' = resources s"
  shows "blocked s' i = blocked s i"
  using assms by (simp add: blocked_def split: option.splits)

lemma tick_selected:
  assumes "wf_state s"
    and "snd (chooseNextWithBoost (scheduler prm) (before_select t s)) = Some i"
  shows "blocked s i \<Longrightarrow> running (tick prm t s) = None"
    and "blocked s i \<Longrightarrow> progress (tasks (tick prm t s) ! i) = progress (tasks s ! i)"
    and "\<not> blocked s i \<Longrightarrow> running (tick prm t s) = Some i"
    and "\<not> blocked s i \<Longrightarrow> remaining (tasks (tick prm t s) ! i)
            = js_sub (remaining (tasks s ! i)) (Fin (speed (cpuState (tick prm t s))))"
    and "\<not> blocked s i \<Longrightarrow> completed (tasks (tick prm t s) ! i)
            = (completed (tasks s ! i)
               \<or> js_le (js_sub (remaining (tasks s ! i)) (Fin (speed (cpuState (tick prm t s)))))
                    (Fin (1 / 10000)))"
    and "\<not> blocked s i \<Longrightarrow> completion_time (tasks (tick prm t s) ! i)
            = (if js_le (js_sub (remaining (tasks s ! i)) (Fin (speed (cpuState (tick prm t s)))))
                    (Fin (1 / 10000))
               then Some (t + 1) else completion_time (tasks s ! i))"
    and "\<not> blocked s i \<Longrightarrow>
         js_le (js_sub (remaining (tasks s ! i)) (Fin (speed (cpuState (tick prm t s))))) (Fin (1 / 10000)) \<Longrightarrow>
         r \<noteq> [] \<Longrightarrow>
         holds_resource (tasks s ! i) = Some r \<or> needs_resource (tasks s ! i) = Some r \<Longrightarrow>
         resources (tick prm t s) r \<noteq> Some (tid (tasks s ! i))"
proof -
  let ?b = "before_select t s"
  let ?c = "chooseNextWithBoost (scheduler prm) ?b"
  define s4 where "s4 = fst ?c"
  define cs where "cs = dvfs prm t s4 (Some i)"
  define s5 where "s5 = s4\<lparr>cpuState := cs, totalEnergy := totalEnergy s4 + power cs\<rparr>"
  define d where "d = dispatch t i s5"
  have lt: "i < length (tasks s)" by (rule selected_lt [OF assms(1,2)])
  have sel: "g (tasks s4 ! i) = g (tasks s ! i)"
    if "\<And>x. g (x\<lparr>admitted := True\<rparr>) = g x" "\<And>x b. g (x\<lparr>boosted := b\<rparr>) = g x"
       "\<And>x b. g (x\<lparr>effectiveCritical := b\<rparr>) = g x" for g :: "task \<Rightarrow> 'a"
    unfolding s4_def by (rule selection_state_nth [OF that lt])
  have f4: "resources s4 = resources s" "length (tasks s4) = length (tasks s)"
    by (simp_all add: s4_def)
  have f5: "tasks s5 = tasks s4" "resources s5 = resources s4" "cpuState s5 = cs"
    by (simp_all add: s5_def)
  have lt5: "i < length (tasks s5)" using lt by (simp add: f5 f4)
  have tick_d: "tick prm t s = update_waits d"
    using assms(2) by (simp add: tick_eq after_select_def Let_def d_def s5_def s4_def cs_def)
  have cs_tick: "cpuState (tick prm t s) = cs"
    by (simp add: tick_d d_def f5)
  have bl: "blocked s5 i = blocked s i"
    by (rule blocked_eq) (simp_all add: f5 f4 sel)
  have ltd: "i < length (tasks d)" using lt5 by (simp add: d_def)
  have upd: "g (tasks (tick prm t s) ! i) = g (tasks d ! i)"
    if "\<And>x n. g (x\<lparr>wait_time := n\<rparr>) = g x" for g :: "task \<Rightarrow> 'a"
    unfolding tick_d by (rule map_eq_nthD [OF update_waits_map ltd]) (rule that)
  {
    assume b: "blocked s i"
    then have b5: "blocked s5 i" by (simp add: bl)
    show "running (tick prm t s) = None"
      by (simp add: tick_d d_def dispatch_blocked(1) [OF b5])
    have "progress (tasks d ! i) = progress (tasks s4 ! i)"
      using lt5 by (simp add: d_def dispatch_blocked(2) [OF b5] f5)
    then show "progress (tasks (tick prm t s) ! i) = progress (tasks s ! i)"
      using upd [of progress] sel [of progress] by simp
  }
  {
    assume nb: "\<not> blocked s i"
    then have nb5: "\<not> blocked s5 i" by (simp add: bl)
    have td: "tasks d ! i = ran t cs (tasks s4 ! i)"
      using lt5 by (simp add: d_def dispatch_unblocked(2) [OF nb5 lt5] f5)
    show "running (tick prm t s) = Some i"
      by (simp add: tick_d d_def dispatch_unblocked(1) [OF nb5 lt5])
    show "remaining (tasks (tick prm t s) ! i)
            = js_sub (remaining (tasks s ! i)) (Fin (speed (cpuState (tick prm t s))))"
      using upd [of remaining] sel [of remaining] by (simp add: td cs_tick)
    show "completed (tasks (tick prm t s) ! i)
            = (completed (tasks s ! i)
               \<or> js_le (js_sub (remaining (tasks s ! i)) (Fin (speed (cpuState (tick prm t s)))))
                    (Fin (1 / 10000)))"
      using upd [of completed] sel [of remaining] sel [of completed]
      by (simp add: td cs_tick ran_completed)
    show "completion_time (tasks (tick prm t s) ! i)
            = (if js_le (js_sub (remaining (tasks s ! i)) (Fin (speed (cpuState (tick prm t s)))))
                    (Fin (1 / 10000))
               then Some (t + 1) else completion_time (tasks s ! i))"
      using upd [of completion_time] sel [of remaining] sel [of completion_time]
      by (simp add: td cs_tick ran_completed)
    assume le: "js_le (js_sub (remaining (tasks s ! i)) (Fin (speed (cpuState (tick prm t s))))) (Fin (1 / 10000))"
      and r: "r \<noteq> []"
      and hn: "holds_resource (tasks s ! i) = Some r \<or> needs_resource (tasks s ! i) = Some r"
    have le5: "js_le (js_sub (remaining (tasks s5 ! i)) (Fin (speed (cpuState s5)))) (Fin (1 / 10000))"
      using le sel [of remaining] by (simp add: f5 cs_tick)
    have hn5: "holds_resource (tasks s5 ! i) = Some r \<or> needs_resource (tasks s5 ! i) = Some r"
      using hn sel [of holds_resource] sel [of needs_resource] by (simp add: f5)
    have "resources d r \<noteq> Some (tid (tasks s5 ! i))"
      unfolding d_def by (rule dispatch_released [OF nb5 lt5 r hn5 le5])
    then show "resources (tick prm t s) r \<noteq> Some (tid (tasks s ! i))"
      using sel [of tid] by (simp add: tick_d f5)
  }
qed

text \<open>
  C5. In one tick from a state of the loop:
  a task that is already completed is not a candidate and is not selected, keeps its
  completion flag, completion time and remaining work, and is not pushed to the ready
  list again;
  a task that is not yet completed becomes completed exactly when it is the selected task,
  it runs (it is not blocked), and its remaining work after the decrement by the speed of
  the tick is at most 0.0001;
  and when it becomes completed its completion time is the tick plus 1, its remaining work
  is the decremented one, and neither the resource it holds nor the one it needs is
  recorded for it in the resource table any more.
\<close>

theorem completes_exactly_once:
  assumes "wf_state s" and "j < length (tasks s)"
  shows "(completed (tasks s ! j) \<longrightarrow>
            j \<notin> set (candidates (before_select t s))
            \<and> snd (chooseNextWithBoost (scheduler prm) (before_select t s)) \<noteq> Some j
            \<and> completed (tasks (tick prm t s) ! j)
            \<and> completion_time (tasks (tick prm t s) ! j) = completion_time (tasks s ! j)
            \<and> remaining (tasks (tick prm t s) ! j) = remaining (tasks s ! j)
            \<and> count_list (ready (tick prm t s)) j = count_list (ready s) j)
         \<and> (\<not> completed (tasks s ! j) \<longrightarrow>
              (completed (tasks (tick prm t s) ! j) \<longleftrightarrow>
                 snd (chooseNextWithBoost (scheduler prm) (before_select t s)) = Some j
                 \<and> running (tick prm t s) = Some j
                 \<and> js_le (js_sub (remaining (tasks s ! j)) (Fin (speed (cpuState (tick prm t s)))))
                      (Fin (1 / 10000))))
         \<and> (\<not> completed (tasks s ! j) \<and> completed (tasks (tick prm t s) ! j) \<longrightarrow>
              completion_time (tasks (tick prm t s) ! j) = Some (t + 1)
              \<and> remaining (tasks (tick prm t s) ! j)
                  = js_sub (remaining (tasks s ! j)) (Fin (speed (cpuState (tick prm t s))))
              \<and> (\<forall>r. r \<noteq> [] \<and> (holds_resource (tasks s ! j) = Some r \<or> needs_resource (tasks s ! j) = Some r)
                     \<longrightarrow> resources (tick prm t s) r \<noteq> Some (tid (tasks s ! j))))"
proof -
  let ?nxt = "snd (chooseNextWithBoost (scheduler prm) (before_select t s))"
  let ?s' = "tick prm t s"
  let ?post = "js_sub (remaining (tasks s ! j)) (Fin (speed (cpuState ?s')))"
  have c1: "completed (tasks s ! j) \<longrightarrow>
            j \<notin> set (candidates (before_select t s)) \<and> ?nxt \<noteq> Some j
            \<and> completed (tasks ?s' ! j)
            \<and> completion_time (tasks ?s' ! j) = completion_time (tasks s ! j)
            \<and> remaining (tasks ?s' ! j) = remaining (tasks s ! j)
            \<and> count_list (ready ?s') j = count_list (ready s) j"
  proof
    assume comp: "completed (tasks s ! j)"
    have nc: "j \<notin> set (candidates (before_select t s))"
      by (rule not_candidate(1) [OF assms(1)]) (simp add: comp)
    have ns: "?nxt \<noteq> Some j"
      by (rule not_candidate(2) [OF assms(1)]) (simp add: comp)
    have "progress (tasks ?s' ! j) = progress (tasks s ! j)"
      by (rule tick_other [OF _ _ _ _ assms(1) ns assms(2)]) simp_all
    then have same: "completed (tasks ?s' ! j)"
      "completion_time (tasks ?s' ! j) = completion_time (tasks s ! j)"
      "remaining (tasks ?s' ! j) = remaining (tasks s ! j)"
      using comp by (simp_all add: progress_def)
    have adm: "admitted (tasks s ! j)"
      using assms comp by (simp add: wf_state_iff)
    have cnt: "count_list (ready ?s') j = count_list (ready s) j"
      by (simp add: admitArrivals_count [OF adm assms(2)])
    show "j \<notin> set (candidates (before_select t s)) \<and> ?nxt \<noteq> Some j
            \<and> completed (tasks ?s' ! j)
            \<and> completion_time (tasks ?s' ! j) = completion_time (tasks s ! j)
            \<and> remaining (tasks ?s' ! j) = remaining (tasks s ! j)
            \<and> count_list (ready ?s') j = count_list (ready s) j"
      by (intro conjI nc ns same cnt)
  qed
  have iff: "completed (tasks ?s' ! j) \<longleftrightarrow>
                 ?nxt = Some j \<and> running ?s' = Some j \<and> js_le ?post (Fin (1 / 10000))"
    if nc: "\<not> completed (tasks s ! j)"
  proof (cases "?nxt = Some j")
    case False
    have "progress (tasks ?s' ! j) = progress (tasks s ! j)"
      by (rule tick_other [OF _ _ _ _ assms(1) False assms(2)]) simp_all
    then have "\<not> completed (tasks ?s' ! j)" using nc by (simp add: progress_def)
    then show ?thesis using False by simp
  next
    case sel: True
    show ?thesis
    proof (cases "blocked s j")
      case True
      have "progress (tasks ?s' ! j) = progress (tasks s ! j)"
        by (rule tick_selected(2) [OF assms(1) sel True])
      then have "\<not> completed (tasks ?s' ! j)" using nc by (simp add: progress_def)
      moreover have "running ?s' = None" by (rule tick_selected(1) [OF assms(1) sel True])
      ultimately show ?thesis by simp
    next
      case False
      show ?thesis
        using tick_selected(3) [OF assms(1) sel False] tick_selected(5) [OF assms(1) sel False] nc sel
        by simp
    qed
  qed
  have c2: "\<not> completed (tasks s ! j) \<longrightarrow>
              (completed (tasks ?s' ! j) \<longleftrightarrow>
                 ?nxt = Some j \<and> running ?s' = Some j \<and> js_le ?post (Fin (1 / 10000)))"
    using iff by blast
  have c3: "\<not> completed (tasks s ! j) \<and> completed (tasks ?s' ! j) \<longrightarrow>
              completion_time (tasks ?s' ! j) = Some (t + 1)
              \<and> remaining (tasks ?s' ! j) = ?post
              \<and> (\<forall>r. r \<noteq> [] \<and> (holds_resource (tasks s ! j) = Some r \<or> needs_resource (tasks s ! j) = Some r)
                     \<longrightarrow> resources ?s' r \<noteq> Some (tid (tasks s ! j)))"
  proof
    assume h: "\<not> completed (tasks s ! j) \<and> completed (tasks ?s' ! j)"
    then have sel: "?nxt = Some j" and run: "running ?s' = Some j"
      and le: "js_le ?post (Fin (1 / 10000))"
      using iff by simp_all
    have nb: "\<not> blocked s j"
      using tick_selected(1) [OF assms(1) sel] run by auto
    have a: "completion_time (tasks ?s' ! j) = Some (t + 1)"
      using tick_selected(6) [OF assms(1) sel nb] le by simp
    have b: "remaining (tasks ?s' ! j) = ?post"
      by (rule tick_selected(4) [OF assms(1) sel nb])
    have c: "\<forall>r. r \<noteq> [] \<and> (holds_resource (tasks s ! j) = Some r \<or> needs_resource (tasks s ! j) = Some r)
                     \<longrightarrow> resources ?s' r \<noteq> Some (tid (tasks s ! j))"
      using tick_selected(7) [OF assms(1) sel nb le] by blast
    show "completion_time (tasks ?s' ! j) = Some (t + 1)
              \<and> remaining (tasks ?s' ! j) = ?post
              \<and> (\<forall>r. r \<noteq> [] \<and> (holds_resource (tasks s ! j) = Some r \<or> needs_resource (tasks s ! j) = Some r)
                     \<longrightarrow> resources ?s' r \<noteq> Some (tid (tasks s ! j)))"
      by (intro conjI a b c)
  qed
  show ?thesis by (intro conjI c1 c2 c3)
qed

theorem completes_exactly_once_witness:
  "wf_state (init_state [(sample_task ''T5'' 0 1 40 Null False)\<lparr>r_holds_resource := Some ''R1''\<rparr>])
   \<and> (0::nat) < length (tasks (init_state [(sample_task ''T5'' 0 1 40 Null False)\<lparr>r_holds_resource := Some ''R1''\<rparr>]))
   \<and> \<not> completed (tasks (init_state [(sample_task ''T5'' 0 1 40 Null False)\<lparr>r_holds_resource := Some ''R1''\<rparr>]) ! 0)
   \<and> completed (tasks (tick \<lparr>scheduler = ''edf'', totalTime = 10, laxityThreshold = 20\<rparr> 0
        (init_state [(sample_task ''T5'' 0 1 40 Null False)\<lparr>r_holds_resource := Some ''R1''\<rparr>])) ! 0)
   \<and> completion_time (tasks (tick \<lparr>scheduler = ''edf'', totalTime = 10, laxityThreshold = 20\<rparr> 0
        (init_state [(sample_task ''T5'' 0 1 40 Null False)\<lparr>r_holds_resource := Some ''R1''\<rparr>])) ! 0) = Some 1
   \<and> resources (tick \<lparr>scheduler = ''edf'', totalTime = 10, laxityThreshold = 20\<rparr> 0
        (init_state [(sample_task ''T5'' 0 1 40 Null False)\<lparr>r_holds_resource := Some ''R1''\<rparr>])) ''R1''
       \<noteq> Some ''T5''
   \<and> completed (tasks (tick \<lparr>scheduler = ''edf'', totalTime = 10, laxityThreshold = 20\<rparr> 1
        (tick \<lparr>scheduler = ''edf'', totalTime = 10, laxityThreshold = 20\<rparr> 0
          (init_state [(sample_task ''T5'' 0 1 40 Null False)\<lparr>r_holds_resource := Some ''R1''\<rparr>]))) ! 0)
   \<and> completion_time (tasks (tick \<lparr>scheduler = ''edf'', totalTime = 10, laxityThreshold = 20\<rparr> 1
        (tick \<lparr>scheduler = ''edf'', totalTime = 10, laxityThreshold = 20\<rparr> 0
          (init_state [(sample_task ''T5'' 0 1 40 Null False)\<lparr>r_holds_resource := Some ''R1''\<rparr>]))) ! 0) = Some 1"
proof -
  let ?p = "\<lparr>scheduler = ''edf'', totalTime = 10, laxityThreshold = 20\<rparr>"
  let ?s = "init_state [(sample_task ''T5'' 0 1 40 Null False)\<lparr>r_holds_resource := Some ''R1''\<rparr>]"
  let ?s1 = "tick ?p 0 ?s"
  have wf: "wf_state ?s" by (rule wf_init)
  have wf1: "wf_state ?s1" by (rule tick_wf [OF wf])
  have len: "(0::nat) < length (tasks ?s)" by (simp add: init_state_def normalize_def)
  have len1: "(0::nat) < length (tasks ?s1)" using len by simp
  have nc: "\<not> completed (tasks ?s ! 0)" by code_simp
  have c1: "completed (tasks ?s1 ! 0)" by code_simp
  have holds: "holds_resource (tasks ?s ! 0) = Some ''R1''" by code_simp
  have tid: "tid (tasks ?s ! 0) = ''T5''" by code_simp
  have ct1: "completion_time (tasks ?s1 ! 0) = Some 1" by code_simp
  note A = completes_exactly_once [OF wf len, of 0 ?p, THEN conjunct2, THEN conjunct2]
  have a: "completion_time (tasks ?s1 ! 0) = Some (0 + 1)
           \<and> remaining (tasks ?s1 ! 0) = js_sub (remaining (tasks ?s ! 0)) (Fin (speed (cpuState ?s1)))
           \<and> (\<forall>r. r \<noteq> [] \<and> (holds_resource (tasks ?s ! 0) = Some r \<or> needs_resource (tasks ?s ! 0) = Some r)
                  \<longrightarrow> resources ?s1 r \<noteq> Some (tid (tasks ?s ! 0)))"
    using A nc c1 by blast
  have a1: "completion_time (tasks ?s1 ! 0) = Some 1" using a by simp
  have a2: "resources ?s1 ''R1'' \<noteq> Some ''T5''"
    using a holds tid by auto
  note B = completes_exactly_once [OF wf1 len1, of 1 ?p, THEN conjunct1]
  have b: "completed (tasks (tick ?p 1 ?s1) ! 0)
           \<and> completion_time (tasks (tick ?p 1 ?s1) ! 0) = completion_time (tasks ?s1 ! 0)"
    using B c1 by blast
  have b1: "completed (tasks (tick ?p 1 ?s1) ! 0)" using b by simp
  have b2: "completion_time (tasks (tick ?p 1 ?s1) ! 0) = Some 1" using b ct1 by simp
  show ?thesis by (intro conjI wf len nc c1 a1 a2 b1 b2)
qed

section \<open>Priority inheritance\<close>




lemma prio_boosted [simp]: "prio (x\<lparr>boosted := b\<rparr>) = prio x"
  by (simp add: prio_def)





section \<open>The states a run passes through\<close>

text \<open>
  A run either reaches the horizon, and then its final state is \<open>state_at\<close> of the first
  tick beyond it, or it leaves the loop in some tick \<open>n\<close>, and then its final state is the
  one right after that tick, without the snapshot of tick \<open>n\<close>: the timeline of a run that
  ends early in tick \<open>n\<close> has \<open>n\<close> entries for \<open>n + 1\<close> simulated ticks. Every state at the
  start of a tick satisfies the invariant \<open>wf_state\<close>, so the statements above about one
  tick from such a state hold in every tick of every run.
\<close>

lemma loop_outcome:
  "nat (totalTime prm + 1 - int t) = k \<Longrightarrow>
   (\<exists>n \<ge> t. \<not> int n \<le> totalTime prm \<and> loop prm t (state_at prm s0 t) = state_at prm s0 n)
   \<or> (\<exists>n \<ge> t. int n \<le> totalTime prm \<and> all_done (tick prm n (state_at prm s0 n))
          \<and> loop prm t (state_at prm s0 t) = tick prm n (state_at prm s0 n))"
proof (induction k arbitrary: t)
  case 0
  then have e: "\<not> int t \<le> totalTime prm" by simp
  then have "loop prm t (state_at prm s0 t) = state_at prm s0 t" by (simp add: loop_end)
  then show ?case using e by blast
next
  case (Suc k)
  then have le: "int t \<le> totalTime prm" by simp
  show ?case
  proof (cases "all_done (tick prm t (state_at prm s0 t))")
    case True
    then have "loop prm t (state_at prm s0 t) = tick prm t (state_at prm s0 t)"
      using le by (simp add: loop_break)
    then show ?thesis using le True by blast
  next
    case False
    have step: "loop prm t (state_at prm s0 t) = loop prm (Suc t) (state_at prm s0 (Suc t))"
      using loop_step [OF le False] by simp
    have k: "nat (totalTime prm + 1 - int (Suc t)) = k" using Suc.prems by simp
    from Suc.IH [OF k] show ?thesis
    proof
      assume "\<exists>n \<ge> Suc t. \<not> int n \<le> totalTime prm
                \<and> loop prm (Suc t) (state_at prm s0 (Suc t)) = state_at prm s0 n"
      then obtain n where "Suc t \<le> n" "\<not> int n \<le> totalTime prm"
        "loop prm (Suc t) (state_at prm s0 (Suc t)) = state_at prm s0 n" by blast
      then have "t \<le> n \<and> \<not> int n \<le> totalTime prm \<and> loop prm t (state_at prm s0 t) = state_at prm s0 n"
        using step by simp
      then show ?thesis by blast
    next
      assume "\<exists>n \<ge> Suc t. int n \<le> totalTime prm \<and> all_done (tick prm n (state_at prm s0 n))
                \<and> loop prm (Suc t) (state_at prm s0 (Suc t)) = tick prm n (state_at prm s0 n)"
      then obtain n where "Suc t \<le> n" "int n \<le> totalTime prm"
        "all_done (tick prm n (state_at prm s0 n))"
        "loop prm (Suc t) (state_at prm s0 (Suc t)) = tick prm n (state_at prm s0 n)" by blast
      then have "t \<le> n \<and> int n \<le> totalTime prm \<and> all_done (tick prm n (state_at prm s0 n))
                 \<and> loop prm t (state_at prm s0 t) = tick prm n (state_at prm s0 n)"
        using step by simp
      then show ?thesis by blast
    qed
  qed
qed

lemma early_exit_timeline:
  assumes "int n \<le> totalTime prm" and "\<forall>k < n. \<not> all_done (tick prm k (state_at prm s0 k))"
    and "all_done (tick prm n (state_at prm s0 n))"
  shows "loop prm 0 s0 = tick prm n (state_at prm s0 n)"
    and "length (timeline (loop prm 0 s0)) = length (timeline s0) + n"
proof -
  have go: "t \<le> n \<Longrightarrow> n - t = k \<Longrightarrow> loop prm t (state_at prm s0 t) = tick prm n (state_at prm s0 n)"
    for t k
  proof (induction k arbitrary: t)
    case 0
    then have "t = n" by simp
    then show ?case using assms(1,3) by (simp add: loop_break)
  next
    case (Suc k)
    then have lt: "t < n" by simp
    then have le: "int t \<le> totalTime prm" using assms(1) by simp
    have nd: "\<not> all_done (tick prm t (state_at prm s0 t))" using assms(2) lt by simp
    have "loop prm t (state_at prm s0 t) = loop prm (Suc t) (state_at prm s0 (Suc t))"
      using loop_step [OF le nd] by simp
    also have "\<dots> = tick prm n (state_at prm s0 n)"
      by (rule Suc.IH) (use Suc.prems lt in simp_all)
    finally show ?case .
  qed
  show a: "loop prm 0 s0 = tick prm n (state_at prm s0 n)"
    using go [of 0 n] by simp
  show "length (timeline (loop prm 0 s0)) = length (timeline s0) + n"
    unfolding a by (simp add: state_at_timeline)
qed

end
